theory Spec2Isabelle
  imports Main
begin

section \<open>JavaScript values\<close>

text \<open>
  The values that flow through the session core: the bearer token, the user record
  returned by the backend, the arguments of the auth adapter, the bodies of requests.
  Numbers are restricted to integers and strings are lists of 8-bit code units; a
  function value never occurs in this core.
\<close>

datatype jsval =
    JUndefined
  | JNull
  | JBool bool
  | JNum int
  | JStr string
  | JArr "jsval list"
  | JObj "(string \<times> jsval) list"

text \<open>Truthiness, as tested by \<open>!x\<close>, \<open>x ? a : b\<close>, \<open>if (x)\<close> and \<open>x || y\<close>.\<close>

fun truthy :: "jsval \<Rightarrow> bool" where
  "truthy JUndefined = False"
| "truthy JNull = False"
| "truthy (JBool b) = b"
| "truthy (JNum n) = (n \<noteq> 0)"
| "truthy (JStr s) = (s \<noteq> [])"
| "truthy (JArr vs) = True"
| "truthy (JObj kvs) = True"

definition js_or :: "jsval \<Rightarrow> jsval \<Rightarrow> jsval" where
  "js_or a b = (if truthy a then a else b)"

text \<open>
  Optional chaining \<open>v?.k\<close> for the property names this core reads (\<open>role\<close>,
  \<open>detail\<close>, \<open>access_token\<close>), which no primitive and no array has: \<open>undefined\<close>
  unless \<open>v\<close> is an object with the property.
\<close>

fun opt_member :: "jsval \<Rightarrow> string \<Rightarrow> jsval" where
  "opt_member (JObj kvs) k = (case map_of kvs k of Some v \<Rightarrow> v | None \<Rightarrow> JUndefined)"
| "opt_member v k = JUndefined"

datatype exn = SyntaxError | TypeError

text \<open>Plain member access \<open>v.k\<close>: a \<open>TypeError\<close> on \<open>null\<close> and \<open>undefined\<close>.\<close>

fun member :: "jsval \<Rightarrow> string \<Rightarrow> exn + jsval" where
  "member JUndefined k = Inl TypeError"
| "member JNull k = Inl TypeError"
| "member v k = Inr (opt_member v k)"

subsection \<open>Conversion to string\<close>

definition digit_char :: "nat \<Rightarrow> char" where
  "digit_char d = char_of (48 + d)"

fun digits :: "nat \<Rightarrow> string" where
  "digits n = (if n < 10 then [digit_char n] else digits (n div 10) @ [digit_char (n mod 10)])"

declare digits.simps [simp del]

definition show_int :: "int \<Rightarrow> string" where
  "show_int i = (if i < 0 then CHR ''-'' # digits (nat (- i)) else digits (nat i))"


fun join_commas :: "string list \<Rightarrow> string" where
  "join_commas [] = []"
| "join_commas [s] = s"
| "join_commas (s # t # ss) = s @ CHR '','' # join_commas (t # ss)"

text \<open>
  \<open>ToString\<close>, as applied by a template literal, by \<open>localStorage.setItem\<close> and by
  \<open>URLSearchParams.append\<close>. An array joins its elements with commas, \<open>null\<close> and
  \<open>undefined\<close> elements giving the empty string; a plain object gives
  \<open>[object Object]\<close>.
\<close>

fun ToString :: "jsval \<Rightarrow> string"
  and ToString_elements :: "jsval list \<Rightarrow> string list"
where
  "ToString JUndefined = ''undefined''"
| "ToString JNull = ''null''"
| "ToString (JBool b) = (if b then ''true'' else ''false'')"
| "ToString (JNum n) = show_int n"
| "ToString (JStr s) = s"
| "ToString (JArr vs) = join_commas (ToString_elements vs)"
| "ToString (JObj kvs) = ''[object Object]''"
| "ToString_elements [] = []"
| "ToString_elements (JUndefined # vs) = [] # ToString_elements vs"
| "ToString_elements (JNull # vs) = [] # ToString_elements vs"
| "ToString_elements (v # vs) = ToString v # ToString_elements vs"

subsection \<open>\<open>JSON.stringify\<close>\<close>

text \<open>
  \<open>JSON.stringify\<close> with one argument: no replacer, no indentation. The result is
  \<open>undefined\<close> (here \<open>None\<close>) for \<open>undefined\<close>; an \<open>undefined\<close> array element is
  written \<open>null\<close> and an object member whose value is \<open>undefined\<close> is left out.
\<close>

definition hex_char :: "nat \<Rightarrow> char" where
  "hex_char d = (if d < 10 then char_of (48 + d) else char_of (87 + d))"

definition escape_char :: "char \<Rightarrow> string" where
  "escape_char c =
     (if c = CHR 0x22 then [CHR 0x5C, CHR 0x22]
      else if c = CHR 0x5C then [CHR 0x5C, CHR 0x5C]
      else if c = CHR 0x08 then [CHR 0x5C, CHR ''b'']
      else if c = CHR 0x0C then [CHR 0x5C, CHR ''f'']
      else if c = CHR 0x0A then [CHR 0x5C, CHR ''n'']
      else if c = CHR 0x0D then [CHR 0x5C, CHR ''r'']
      else if c = CHR 0x09 then [CHR 0x5C, CHR ''t'']
      else if (of_char c :: nat) < 32
        then [CHR 0x5C, CHR ''u'', CHR ''0'', CHR ''0'',
              hex_char (of_char c div 16), hex_char (of_char c mod 16)]
      else [c])"

definition quote :: "string \<Rightarrow> string" where
  "quote s = CHR 0x22 # concat (map escape_char s) @ [CHR 0x22]"

fun JSON_stringify :: "jsval \<Rightarrow> string option"
  and stringify_elements :: "jsval list \<Rightarrow> string list"
  and stringify_members :: "(string \<times> jsval) list \<Rightarrow> string list"
where
  "JSON_stringify JUndefined = None"
| "JSON_stringify JNull = Some ''null''"
| "JSON_stringify (JBool b) = Some (if b then ''true'' else ''false'')"
| "JSON_stringify (JNum n) = Some (show_int n)"
| "JSON_stringify (JStr s) = Some (quote s)"
| "JSON_stringify (JArr vs) = Some (CHR ''['' # join_commas (stringify_elements vs) @ '']'')"
| "JSON_stringify (JObj kvs) = Some (CHR ''{'' # join_commas (stringify_members kvs) @ ''}'')"
| "stringify_elements [] = []"
| "stringify_elements (v # vs) =
     (case JSON_stringify v of None \<Rightarrow> ''null'' | Some t \<Rightarrow> t) # stringify_elements vs"
| "stringify_members [] = []"
| "stringify_members ((k, v) # kvs) =
     (case JSON_stringify v of
        None \<Rightarrow> stringify_members kvs
      | Some t \<Rightarrow> (quote k @ CHR '':'' # t) # stringify_members kvs)"

subsection \<open>\<open>JSON.parse\<close>\<close>

text \<open>
  A recursive-descent reader of JSON text. \<open>parse_value\<close> reads one value from the
  front of its input and returns it with the remaining input; its first argument
  bounds the number of nested calls; \<open>JSON_parse\<close> passes a bound computed from the
  length of the text, which is shown below to be enough for every text. A number
  literal with a fraction or an exponent, and a four-digit hexadecimal escape above
  \<open>00FF\<close>, lie outside the values modelled here and are refused. A repeated member
  name overwrites the earlier value in place, as property definition does.
\<close>

definition is_ws :: "char \<Rightarrow> bool" where
  "is_ws c = (c = CHR 0x20 \<or> c = CHR 0x09 \<or> c = CHR 0x0A \<or> c = CHR 0x0D)"

definition skip_ws :: "string \<Rightarrow> string" where
  "skip_ws s = dropWhile is_ws s"

definition is_digit :: "char \<Rightarrow> bool" where
  "is_digit c = (48 \<le> (of_char c :: nat) \<and> (of_char c :: nat) \<le> 57)"

definition digits_val :: "string \<Rightarrow> nat" where
  "digits_val ds = foldl (\<lambda>a c. 10 * a + (of_char c - 48)) 0 ds"

definition hex_val :: "char \<Rightarrow> nat option" where
  "hex_val c =
     (let n = (of_char c :: nat)
      in if 48 \<le> n \<and> n \<le> 57 then Some (n - 48)
         else if 97 \<le> n \<and> n \<le> 102 then Some (n - 87)
         else if 65 \<le> n \<and> n \<le> 70 then Some (n - 55)
         else None)"

definition unescape :: "char \<Rightarrow> char option" where
  "unescape e =
     (if e = CHR 0x22 then Some (CHR 0x22)
      else if e = CHR 0x5C then Some (CHR 0x5C)
      else if e = CHR ''/'' then Some (CHR ''/'')
      else if e = CHR ''b'' then Some (CHR 0x08)
      else if e = CHR ''f'' then Some (CHR 0x0C)
      else if e = CHR ''n'' then Some (CHR 0x0A)
      else if e = CHR ''r'' then Some (CHR 0x0D)
      else if e = CHR ''t'' then Some (CHR 0x09)
      else None)"

definition hex4 :: "char \<Rightarrow> char \<Rightarrow> char \<Rightarrow> char \<Rightarrow> char option" where
  "hex4 a b c d =
     (case (hex_val a, hex_val b, hex_val c, hex_val d) of
        (Some x3, Some x2, Some x1, Some x0) \<Rightarrow>
          if x3 = 0 \<and> x2 = 0 then Some (char_of (16 * x1 + x0)) else None
      | _ \<Rightarrow> None)"

definition cons_result :: "'a \<Rightarrow> ('a list \<times> string) option \<Rightarrow> ('a list \<times> string) option" where
  "cons_result x res = (case res of None \<Rightarrow> None | Some (xs, r) \<Rightarrow> Some (x # xs, r))"

fun parse_chars :: "string \<Rightarrow> (string \<times> string) option" where
  "parse_chars [] = None"
| "parse_chars (c # cs) =
     (if c = CHR 0x22 then Some ([], cs)
      else if c = CHR 0x5C then
        (case cs of
           [] \<Rightarrow> None
         | e # es \<Rightarrow>
             if e = CHR ''u'' then
               (case es of
                  h3 # h2 # h1 # h0 # r \<Rightarrow>
                    (case hex4 h3 h2 h1 h0 of
                       None \<Rightarrow> None
                     | Some ch \<Rightarrow> cons_result ch (parse_chars r))
                | _ \<Rightarrow> None)
             else
               (case unescape e of
                  None \<Rightarrow> None
                | Some ch \<Rightarrow> cons_result ch (parse_chars es)))
      else if (of_char c :: nat) < 32 then None
      else cons_result c (parse_chars cs))"

fun strip_prefix :: "string \<Rightarrow> string \<Rightarrow> string option" where
  "strip_prefix [] s = Some s"
| "strip_prefix (p # ps) [] = None"
| "strip_prefix (p # ps) (c # cs) = (if p = c then strip_prefix ps cs else None)"

definition parse_digits :: "string \<Rightarrow> (nat \<times> string) option" where
  "parse_digits s =
     (let ds = takeWhile is_digit s; r = dropWhile is_digit s
      in if ds = [] then None
         else if 1 < length ds \<and> take 1 ds = ''0'' then None
         else if take 1 r = ''.'' \<or> take 1 r = ''e'' \<or> take 1 r = ''E'' then None
         else Some (digits_val ds, r))"

definition parse_number :: "string \<Rightarrow> (jsval \<times> string) option" where
  "parse_number s =
     (case s of
        [] \<Rightarrow> None
      | c # cs \<Rightarrow>
          if c = CHR ''-''
          then map_option (\<lambda>(n, r). (JNum (- int n), r)) (parse_digits cs)
          else map_option (\<lambda>(n, r). (JNum (int n), r)) (parse_digits s))"

fun put :: "string \<Rightarrow> jsval \<Rightarrow> (string \<times> jsval) list \<Rightarrow> (string \<times> jsval) list" where
  "put k v [] = [(k, v)]"
| "put k v ((k', v') # kvs) = (if k' = k then (k, v) # kvs else (k', v') # put k v kvs)"

definition make_object :: "(string \<times> jsval) list \<Rightarrow> jsval" where
  "make_object kvs = JObj (foldl (\<lambda>acc (k, v). put k v acc) [] kvs)"

fun parse_value :: "nat \<Rightarrow> string \<Rightarrow> (jsval \<times> string) option"
  and parse_elements :: "nat \<Rightarrow> string \<Rightarrow> (jsval list \<times> string) option"
  and parse_members :: "nat \<Rightarrow> string \<Rightarrow> ((string \<times> jsval) list \<times> string) option"
where
  "parse_value 0 s = None"
| "parse_value (Suc n) s =
     (case s of
        [] \<Rightarrow> None
      | c # cs \<Rightarrow>
          if c = CHR ''n'' then map_option (Pair JNull) (strip_prefix ''ull'' cs)
          else if c = CHR ''t'' then map_option (Pair (JBool True)) (strip_prefix ''rue'' cs)
          else if c = CHR ''f'' then map_option (Pair (JBool False)) (strip_prefix ''alse'' cs)
          else if c = CHR 0x22 then map_option (\<lambda>(t, r). (JStr t, r)) (parse_chars cs)
          else if c = CHR ''['' then
            (case skip_ws cs of
               [] \<Rightarrow> None
             | d # ds \<Rightarrow>
                 if d = CHR '']'' then Some (JArr [], ds)
                 else map_option (\<lambda>(vs, r). (JArr vs, r)) (parse_elements n (d # ds)))
          else if c = CHR ''{'' then
            (case skip_ws cs of
               [] \<Rightarrow> None
             | d # ds \<Rightarrow>
                 if d = CHR ''}'' then Some (JObj [], ds)
                 else map_option (\<lambda>(kvs, r). (make_object kvs, r)) (parse_members n (d # ds)))
          else parse_number s)"
| "parse_elements 0 s = None"
| "parse_elements (Suc n) s =
     (case parse_value n s of
        None \<Rightarrow> None
      | Some (v, r) \<Rightarrow>
          (case skip_ws r of
             [] \<Rightarrow> None
           | c # cs \<Rightarrow>
               if c = CHR '']'' then Some ([v], cs)
               else if c = CHR '','' then cons_result v (parse_elements n (skip_ws cs))
               else None))"
| "parse_members 0 s = None"
| "parse_members (Suc n) s =
     (case s of
        [] \<Rightarrow> None
      | q # cs \<Rightarrow>
          if q \<noteq> CHR 0x22 then None
          else
            (case parse_chars cs of
               None \<Rightarrow> None
             | Some (k, r) \<Rightarrow>
                 (case skip_ws r of
                    [] \<Rightarrow> None
                  | c1 # r1 \<Rightarrow>
                      if c1 \<noteq> CHR '':'' then None
                      else
                        (case parse_value n (skip_ws r1) of
                           None \<Rightarrow> None
                         | Some (v, r2) \<Rightarrow>
                             (case skip_ws r2 of
                                [] \<Rightarrow> None
                              | c2 # r3 \<Rightarrow>
                                  if c2 = CHR ''}'' then Some ([(k, v)], r3)
                                  else if c2 = CHR '','' then
                                    cons_result (k, v) (parse_members n (skip_ws r3))
                                  else None)))))"

definition JSON_parse :: "string \<Rightarrow> exn + jsval" where
  "JSON_parse s =
     (case parse_value (Suc (2 * length s)) (skip_ws s) of
        None \<Rightarrow> Inl SyntaxError
      | Some (v, r) \<Rightarrow> if skip_ws r = [] then Inr v else Inl SyntaxError)"

section \<open>The browser: local storage and location\<close>

record browser =
  localStorage :: "string \<rightharpoonup> string"
  location_href :: string

text \<open>\<open>localStorage.getItem\<close>: the stored string, or \<open>null\<close>.\<close>

definition getItem :: "browser \<Rightarrow> string \<Rightarrow> jsval" where
  "getItem b k = (case localStorage b k of None \<Rightarrow> JNull | Some s \<Rightarrow> JStr s)"

text \<open>The statements that change the browser, and their execution in program order.\<close>

datatype effect = SetItem string string | RemoveItem string | SetHref string

fun exec :: "effect \<Rightarrow> browser \<Rightarrow> browser" where
  "exec (SetItem k s) b = b\<lparr>localStorage := (localStorage b)(k \<mapsto> s)\<rparr>"
| "exec (RemoveItem k) b = b\<lparr>localStorage := (localStorage b)(k := None)\<rparr>"
| "exec (SetHref url) b = b\<lparr>location_href := url\<rparr>"

text \<open>The browser state in which the first assignment to \<open>location.href\<close> is made.\<close>

fun at_redirect :: "effect list \<Rightarrow> browser \<Rightarrow> browser option" where
  "at_redirect [] b = None"
| "at_redirect (SetHref url # es) b = Some b"
| "at_redirect (e # es) b = at_redirect es (exec e b)"

section \<open>Session store (stores/authStore.js)\<close>

record session =
  token :: jsval
  user :: jsval

text \<open>
  The module-level constant \<open>stored\<close>, evaluated when the module is loaded:
  the initial state of the store. \<open>JSON.parse\<close> may throw.
\<close>

definition stored :: "browser \<Rightarrow> exn + session" where
  "stored b =
     (let t = js_or (getItem b ''dd_token'') JNull
      in case JSON_parse (ToString (js_or (getItem b ''dd_user'') (JStr ''null''))) of
           Inl e \<Rightarrow> Inl e
         | Inr u \<Rightarrow> Inr \<lparr>token = t, user = u\<rparr>)"

text \<open>
  The argument \<open>localStorage.setItem\<close> receives from \<open>JSON.stringify\<close>: the text, or
  \<open>undefined\<close>, which \<open>setItem\<close> converts to the string \<open>undefined\<close>.
\<close>

definition stringify_item :: "jsval \<Rightarrow> string" where
  "stringify_item v = (case JSON_stringify v of None \<Rightarrow> ''undefined'' | Some s \<Rightarrow> s)"

text \<open>The store is the in-memory state together with the local storage it mirrors.\<close>

type_synonym store = "session \<times> browser"

definition setAuth :: "jsval \<Rightarrow> jsval \<Rightarrow> store \<Rightarrow> store" where
  "setAuth t u st =
     (let b1 = exec (SetItem ''dd_token'' (ToString t)) (snd st);
          b2 = exec (SetItem ''dd_user'' (stringify_item u)) b1
      in ((fst st)\<lparr>token := t, user := u\<rparr>, b2))"

definition logout :: "store \<Rightarrow> store" where
  "logout st =
     (let b1 = exec (RemoveItem ''dd_token'') (snd st);
          b2 = exec (RemoveItem ''dd_user'') b1
      in ((fst st)\<lparr>token := JNull, user := JNull\<rparr>, b2))"

definition updateUser :: "jsval \<Rightarrow> store \<Rightarrow> store" where
  "updateUser u st =
     (let b1 = exec (SetItem ''dd_user'' (stringify_item u)) (snd st)
      in ((fst st)\<lparr>user := u\<rparr>, b1))"

subsection \<open>Sequences of store operations\<close>

datatype store_op = SetAuth jsval jsval | Logout | UpdateUser jsval

fun apply_op :: "store_op \<Rightarrow> store \<Rightarrow> store" where
  "apply_op (SetAuth t u) st = setAuth t u st"
| "apply_op Logout st = logout st"
| "apply_op (UpdateUser u) st = updateUser u st"

text \<open>The states observed after each call of a sequence, in order.\<close>

fun observations :: "store_op list \<Rightarrow> store \<Rightarrow> store list" where
  "observations [] st = []"
| "observations (x # xs) st = apply_op x st # observations xs (apply_op x st)"

text \<open>A value is present when it is neither \<open>null\<close> nor \<open>undefined\<close>.\<close>

fun present :: "jsval \<Rightarrow> bool" where
  "present JUndefined = False"
| "present JNull = False"
| "present v = True"

text \<open>Token and user both present or both absent, in memory and in local storage.\<close>

definition paired :: "store \<Rightarrow> bool" where
  "paired st =
     ((present (token (fst st)) = present (user (fst st))) \<and>
      (present (getItem (snd st) ''dd_token'') = present (getItem (snd st) ''dd_user'')))"

definition logged_out :: "store \<Rightarrow> bool" where
  "logged_out st =
     (token (fst st) = JNull \<and> user (fst st) = JNull \<and>
      getItem (snd st) ''dd_token'' = JNull \<and> getItem (snd st) ''dd_user'' = JNull)"

text \<open>
  The calls the specification allows: \<open>setAuth\<close> with a non-empty token string and a
  user, \<open>logout\<close>, and \<open>updateUser\<close> with a user. \<open>guarded_op\<close> allows \<open>updateUser\<close>
  only while a token is held.
\<close>

fun allowed_op :: "store_op \<Rightarrow> bool" where
  "allowed_op (SetAuth t u) = ((case t of JStr s \<Rightarrow> s \<noteq> [] | _ \<Rightarrow> False) \<and> present u)"
| "allowed_op Logout = True"
| "allowed_op (UpdateUser u) = present u"

fun guarded_op :: "store_op \<Rightarrow> store \<Rightarrow> bool" where
  "guarded_op (UpdateUser u) st = (present u \<and> present (token (fst st)))"
| "guarded_op x st = allowed_op x"

fun guarded_ops :: "store_op list \<Rightarrow> store \<Rightarrow> bool" where
  "guarded_ops [] st = True"
| "guarded_ops (x # xs) st = (guarded_op x st \<and> guarded_ops xs (apply_op x st))"

section \<open>Route guards (App.jsx)\<close>

datatype element = Children | Navigate string bool

definition RequireAuth :: "session \<Rightarrow> element" where
  "RequireAuth s = (if truthy (token s) then Children else Navigate ''/login'' True)"

definition RequireInvestigator :: "session \<Rightarrow> element" where
  "RequireInvestigator s =
     (if \<not> truthy (token s) then Navigate ''/login'' True
      else if opt_member (user s) ''role'' \<noteq> JStr ''investigator''
        then Navigate ''/dashboard'' True
      else Children)"

definition RequirePatient :: "session \<Rightarrow> element" where
  "RequirePatient s =
     (if \<not> truthy (token s) then Navigate ''/login'' True
      else if opt_member (user s) ''role'' = JStr ''investigator''
        then Navigate ''/investigator'' True
      else Children)"

definition PublicOnly :: "session \<Rightarrow> element" where
  "PublicOnly s =
     (if \<not> truthy (token s) then Children
      else Navigate (if opt_member (user s) ''role'' = JStr ''investigator''
                     then ''/investigator'' else ''/dashboard'') True)"

subsection \<open>The guard table of the specification\<close>

datatype guard = G_RequireAuth | G_RequirePatient | G_RequireInvestigator | G_PublicOnly

datatype role = patient | investigator | absent

fun run_guard :: "guard \<Rightarrow> session \<Rightarrow> element" where
  "run_guard G_RequireAuth s = RequireAuth s"
| "run_guard G_RequirePatient s = RequirePatient s"
| "run_guard G_RequireInvestigator s = RequireInvestigator s"
| "run_guard G_PublicOnly s = PublicOnly s"

definition hasToken :: "session \<Rightarrow> bool" where
  "hasToken s = truthy (token s)"

definition role_of :: "session \<Rightarrow> role" where
  "role_of s =
     (if opt_member (user s) ''role'' = JStr ''patient'' then patient
      else if opt_member (user s) ''role'' = JStr ''investigator'' then investigator
      else absent)"

text \<open>
  The table as the specification words it: one row per guard, the columns
  \<open>hasToken = false\<close>, \<open>role = patient\<close>, \<open>role = investigator\<close>, and the sentence on a
  present token with a missing or unknown role, which only speaks about
  \<open>RequirePatient\<close> and \<open>PublicOnly\<close> (\<open>RequireAuth\<close> renders whenever a token is
  present). \<open>None\<close> marks the cell the specification leaves open.
\<close>

fun spec_guard_table :: "guard \<Rightarrow> bool \<Rightarrow> role \<Rightarrow> element option" where
  "spec_guard_table G_RequireAuth False r = Some (Navigate ''/login'' True)"
| "spec_guard_table G_RequireAuth True r = Some Children"
| "spec_guard_table G_RequirePatient False r = Some (Navigate ''/login'' True)"
| "spec_guard_table G_RequirePatient True patient = Some Children"
| "spec_guard_table G_RequirePatient True investigator = Some (Navigate ''/investigator'' True)"
| "spec_guard_table G_RequirePatient True absent = Some Children"
| "spec_guard_table G_RequireInvestigator False r = Some (Navigate ''/login'' True)"
| "spec_guard_table G_RequireInvestigator True patient = Some (Navigate ''/dashboard'' True)"
| "spec_guard_table G_RequireInvestigator True investigator = Some Children"
| "spec_guard_table G_RequireInvestigator True absent = None"
| "spec_guard_table G_PublicOnly False r = Some Children"
| "spec_guard_table G_PublicOnly True patient = Some (Navigate ''/dashboard'' True)"
| "spec_guard_table G_PublicOnly True investigator = Some (Navigate ''/investigator'' True)"
| "spec_guard_table G_PublicOnly True absent = Some (Navigate ''/dashboard'' True)"

section \<open>HTTP requests and responses\<close>

datatype http_method = GET | POST | PUT | DELETE

text \<open>A request body: none, a \<open>URLSearchParams\<close> object (its name-value pairs in the
  order they were appended) or a value that is sent as JSON.\<close>

datatype body = NoBody | FormBody "(string \<times> string) list" | JsonBody jsval

record request =
  req_method :: http_method
  req_url :: string
  req_headers :: "string \<rightharpoonup> string"
  req_data :: body

record response =
  status :: int
  data :: jsval

text \<open>An error of the HTTP client: it carries a response when the server answered, and
  none on a network failure or a timeout.\<close>

record axios_error =
  err_message :: string
  err_response :: "response option"

datatype promise = Resolved response | Rejected axios_error

section \<open>Authorized request client (api/client.js)\<close>

definition request_interceptor :: "browser \<Rightarrow> request \<Rightarrow> request" where
  "request_interceptor b config =
     (let t = getItem b ''dd_token''
      in if truthy t
         then config\<lparr>req_headers := (req_headers config)(''Authorization'' \<mapsto> ''Bearer '' @ ToString t)\<rparr>
         else config)"

text \<open>The success handler passes the response through.\<close>

definition response_fulfilled :: "response \<Rightarrow> browser \<Rightarrow> browser \<times> promise" where
  "response_fulfilled res b = (b, Resolved res)"

text \<open>\<open>err.response?.status\<close>.\<close>

definition error_status :: "axios_error \<Rightarrow> int option" where
  "error_status err = map_option status (err_response err)"

text \<open>The error handler: the statements it executes, then the rejection with the
  same error.\<close>

definition rejected_effects :: "axios_error \<Rightarrow> effect list" where
  "rejected_effects err =
     (if error_status err = Some 401
      then [RemoveItem ''dd_token'', RemoveItem ''dd_user'', SetHref ''/login'']
      else [])"

definition response_rejected :: "axios_error \<Rightarrow> browser \<Rightarrow> browser \<times> promise" where
  "response_rejected err b = (fold exec (rejected_effects err) b, Rejected err)"

section \<open>Auth API adapter (api/auth.js)\<close>

text \<open>\<open>API_BASE\<close>, from the build-time variable \<open>VITE_API_BASE_URL\<close> (a string, or
  \<open>undefined\<close> when unset), as it is spliced into a URL.\<close>

definition API_BASE :: "jsval \<Rightarrow> string" where
  "API_BASE env = ToString (js_or env (JStr ''http://localhost:8000''))"

text \<open>A call passes a list of arguments; a parameter beyond the list is \<open>undefined\<close>.\<close>

definition arg :: "jsval list \<Rightarrow> nat \<Rightarrow> jsval" where
  "arg args i = (if i < length args then args ! i else JUndefined)"

definition authApi_login :: "jsval \<Rightarrow> jsval list \<Rightarrow> request" where
  "authApi_login env args =
     (let email = arg args 0; password = arg args 1;
          formData = [] @ [(''username'', ToString email)] @ [(''password'', ToString password)]
      in \<lparr>req_method = POST,
          req_url = API_BASE env @ ''/api/v1/auth/login'',
          req_headers = [''Content-Type'' \<mapsto> ''application/x-www-form-urlencoded''],
          req_data = FormBody formData\<rparr>)"

definition authApi_me :: "jsval \<Rightarrow> jsval list \<Rightarrow> request" where
  "authApi_me env args =
     (let t = arg args 0
      in \<lparr>req_method = GET,
          req_url = API_BASE env @ ''/api/v1/auth/me'',
          req_headers = [''Authorization'' \<mapsto> ''Bearer '' @ ToString t],
          req_data = NoBody\<rparr>)"

definition authApi_register :: "jsval \<Rightarrow> jsval list \<Rightarrow> request" where
  "authApi_register env args =
     (let email = arg args 0; password = arg args 1; fullName = arg args 2;
          role = (if arg args 3 = JUndefined then JStr ''patient'' else arg args 3)
      in \<lparr>req_method = POST,
          req_url = API_BASE env @ ''/api/v1/auth/register'',
          req_headers = Map.empty,
          req_data = JsonBody (JObj [(''email'', email), (''password'', password),
                                     (''full_name'', fullName), (''role'', role)])\<rparr>)"

section \<open>Registration page (pages/Register.jsx)\<close>

text \<open>The form state: four strings, the role preset to \<open>patient\<close>.\<close>

record form =
  form_full_name :: string
  form_email :: string
  form_password :: string
  form_role :: string

definition form_object :: "form \<Rightarrow> jsval" where
  "form_object f =
     JObj [(''full_name'', JStr (form_full_name f)), (''email'', JStr (form_email f)),
           (''password'', JStr (form_password f)), (''role'', JStr (form_role f))]"

datatype toast = ToastError jsval | ToastSuccess string

text \<open>What the page does, in order.\<close>

datatype event =
    Sent request
  | Toasted toast
  | StoreSet jsval jsval
  | Navigated string
  | Loading bool

record page =
  events :: "event list"
  auth :: store

definition emit :: "event \<Rightarrow> page \<Rightarrow> page" where
  "emit e pg = pg\<lparr>events := events pg @ [e]\<rparr>"

text \<open>What the \<open>catch\<close> clause receives: a rejected request or a thrown exception.\<close>

datatype caught = Failed axios_error | Thrown exn

text \<open>\<open>err.response?.data?.detail\<close>.\<close>

fun error_detail :: "caught \<Rightarrow> jsval" where
  "error_detail (Thrown e) = JUndefined"
| "error_detail (Failed err) =
     (case err_response err of None \<Rightarrow> JUndefined | Some r \<Rightarrow> opt_member (data r) ''detail'')"

text \<open>
  The body of the \<open>try\<close> block. The network is a function from the request to its
  outcome; \<open>Inl\<close> is a rejection. The success message is written without its
  closing pictograph.
\<close>

definition submit_try ::
  "jsval \<Rightarrow> (request \<Rightarrow> axios_error + response) \<Rightarrow> form \<Rightarrow> page \<Rightarrow> page \<times> caught option" where
  "submit_try env net f pg =
     (let r1 = authApi_register env [form_object f]; pg1 = emit (Sent r1) pg
      in case net r1 of
           Inl e \<Rightarrow> (pg1, Some (Failed e))
         | Inr created \<Rightarrow>
             (let r2 = authApi_login env [JStr (form_email f), JStr (form_password f)];
                  pg2 = emit (Sent r2) pg1
              in case net r2 of
                   Inl e \<Rightarrow> (pg2, Some (Failed e))
                 | Inr res \<Rightarrow>
                     (let r3 = authApi_me env []; pg3 = emit (Sent r3) pg2
                      in case net r3 of
                           Inl e \<Rightarrow> (pg3, Some (Failed e))
                         | Inr me \<Rightarrow>
                             (case member (data res) ''access_token'' of
                                Inl x \<Rightarrow> (pg3, Some (Thrown x))
                              | Inr t \<Rightarrow>
                                  (let pg4 = emit (StoreSet t (data me))
                                               (pg3\<lparr>auth := setAuth t (data me) (auth pg3)\<rparr>);
                                       pg5 = emit (Toasted (ToastSuccess ''Account created! Welcome'')) pg4
                                   in case member (data me) ''role'' of
                                        Inl x \<Rightarrow> (pg5, Some (Thrown x))
                                      | Inr r \<Rightarrow>
                                          (emit (Navigated (if r = JStr ''investigator''
                                                            then ''/investigator''
                                                            else ''/dashboard'')) pg5,
                                           None))))))"

definition handleSubmit ::
  "jsval \<Rightarrow> (request \<Rightarrow> axios_error + response) \<Rightarrow> form \<Rightarrow> page \<Rightarrow> page" where
  "handleSubmit env net f pg =
     (if form_full_name f = [] \<or> form_email f = [] \<or> form_password f = []
      then emit (Toasted (ToastError (JStr ''All fields are required''))) pg
      else if length (form_password f) < 8
      then emit (Toasted (ToastError (JStr ''Password must be at least 8 characters''))) pg
      else
        (case submit_try env net f (emit (Loading True) pg) of
           (pg', None) \<Rightarrow> emit (Loading False) pg'
         | (pg', Some err) \<Rightarrow>
             emit (Loading False)
               (emit (Toasted (ToastError
                  (js_or (error_detail err) (JStr ''Registration failed'')))) pg')))"

section \<open>Notions used in the statements\<close>

subsection \<open>Values that survive \<open>JSON.stringify\<close> and \<open>JSON.parse\<close>\<close>

text \<open>
  A value is serializable when it holds no \<open>undefined\<close>, its numbers are safe
  integers (of magnitude at most \<open>2^53 - 1\<close>), and the names of every object are
  distinct and none is written with digits only (an array-index name would be
  enumerated before the others, whatever the order of insertion).
\<close>

definition safe_integer :: "int \<Rightarrow> bool" where
  "safe_integer n = (- 9007199254740991 \<le> n \<and> n \<le> 9007199254740991)"

definition index_like :: "string \<Rightarrow> bool" where
  "index_like k = (k \<noteq> [] \<and> list_all is_digit k)"

fun serializable :: "jsval \<Rightarrow> bool"
  and serializable_elements :: "jsval list \<Rightarrow> bool"
  and serializable_members :: "(string \<times> jsval) list \<Rightarrow> bool"
where
  "serializable JUndefined = False"
| "serializable JNull = True"
| "serializable (JBool b) = True"
| "serializable (JNum n) = safe_integer n"
| "serializable (JStr s) = True"
| "serializable (JArr vs) = serializable_elements vs"
| "serializable (JObj kvs) = (distinct (map fst kvs) \<and> serializable_members kvs)"
| "serializable_elements [] = True"
| "serializable_elements (v # vs) = (serializable v \<and> serializable_elements vs)"
| "serializable_members [] = True"
| "serializable_members ((k, v) # kvs) =
     (\<not> index_like k \<and> serializable v \<and> serializable_members kvs)"

text \<open>The number of nested calls that reading a value back takes at most.\<close>

fun weight :: "jsval \<Rightarrow> nat"
  and weight_elements :: "jsval list \<Rightarrow> nat"
  and weight_members :: "(string \<times> jsval) list \<Rightarrow> nat"
where
  "weight JUndefined = 1"
| "weight JNull = 1"
| "weight (JBool b) = 1"
| "weight (JNum n) = 1"
| "weight (JStr s) = 1"
| "weight (JArr vs) = Suc (weight_elements vs)"
| "weight (JObj kvs) = Suc (weight_members kvs)"
| "weight_elements [] = 0"
| "weight_elements (v # vs) = Suc (weight v + weight_elements vs)"
| "weight_members [] = 0"
| "weight_members ((k, v) # kvs) = Suc (weight v + weight_members kvs)"

text \<open>Input on which a number literal ends, and input that begins with a value.\<close>

fun number_end :: "string \<Rightarrow> bool" where
  "number_end [] = True"
| "number_end (c # cs) =
     (\<not> is_digit c \<and> c \<noteq> CHR ''.'' \<and> c \<noteq> CHR ''e'' \<and> c \<noteq> CHR ''E'')"

definition starts_value :: "string \<Rightarrow> bool" where
  "starts_value s =
     (case s of [] \<Rightarrow> False | c # cs \<Rightarrow> \<not> is_ws c \<and> c \<noteq> CHR '']'' \<and> c \<noteq> CHR ''}'')"

subsection \<open>The store invariant\<close>

text \<open>Pairing in memory, pairing in storage, and agreement of the two on the token.\<close>

definition store_inv :: "store \<Rightarrow> bool" where
  "store_inv st =
     ((present (token (fst st)) = present (user (fst st))) \<and>
      (present (token (fst st)) = present (getItem (snd st) ''dd_token'')) \<and>
      (present (getItem (snd st) ''dd_token'') = present (getItem (snd st) ''dd_user'')))"

subsection \<open>The registration form's validation\<close>

text \<open>A form that passes both checks at the head of \<open>handleSubmit\<close>.\<close>

definition valid_form :: "form \<Rightarrow> bool" where
  "valid_form f =
     (form_full_name f \<noteq> [] \<and> form_email f \<noteq> [] \<and> form_password f \<noteq> [] \<and>
      8 \<le> length (form_password f))"

subsection \<open>Sample inputs\<close>

definition user_priya :: jsval where
  "user_priya = JObj [(''id'', JNum 7), (''email'', JStr ''a@b.com''),
                      (''full_name'', JStr ''Priya Sharma''), (''role'', JStr ''patient'')]"

definition store_empty :: store where
  "store_empty = (\<lparr>token = JNull, user = JNull\<rparr>,
                  \<lparr>localStorage = Map.empty, location_href = ''/register''\<rparr>)"

definition net_ok :: "request \<Rightarrow> axios_error + response" where
  "net_ok r = Inr \<lparr>status = 200,
                  data = JObj [(''access_token'', JStr ''abc123''), (''role'', JStr ''investigator'')]\<rparr>"

definition form_ok :: form where
  "form_ok = \<lparr>form_full_name = ''Priya Sharma'', form_email = ''a@b.com'',
              form_password = ''password1'', form_role = ''investigator''\<rparr>"

definition form_blank :: form where
  "form_blank = \<lparr>form_full_name = [], form_email = [], form_password = [], form_role = ''patient''\<rparr>"

definition page_fresh :: page where
  "page_fresh = \<lparr>events = [], auth = store_empty\<rparr>"

section \<open>JSON text: writing and reading back\<close>

subsection \<open>String literals\<close>

lemma hex_val_hex_char: "d < 16 \<Longrightarrow> hex_val (hex_char d) = Some d"
  by (auto simp: hex_val_def hex_char_def Let_def)

lemma hex_val_zero: "hex_val (CHR ''0'') = Some 0"
  by (simp add: hex_val_def)

lemma hex4_low:
  assumes "(of_char c :: nat) < 32"
  shows "hex4 (CHR ''0'') (CHR ''0'') (hex_char (of_char c div 16)) (hex_char (of_char c mod 16)) = Some c"
proof -
  have a: "(of_char c :: nat) div 16 < 16" using assms by simp
  have b: "(of_char c :: nat) mod 16 < 16" by simp
  show ?thesis
    by (simp add: hex4_def hex_val_zero hex_val_hex_char [OF a] hex_val_hex_char [OF b])
qed

lemma parse_chars_escape:
  "parse_chars (escape_char c @ t) = cons_result c (parse_chars t)"
proof -
  consider (sp) "c \<in> {CHR 0x22, CHR 0x5C, CHR 0x08, CHR 0x0C, CHR 0x0A, CHR 0x0D, CHR 0x09}"
    | (lo) "c \<notin> {CHR 0x22, CHR 0x5C, CHR 0x08, CHR 0x0C, CHR 0x0A, CHR 0x0D, CHR 0x09}" "(of_char c :: nat) < 32"
    | (pl) "c \<notin> {CHR 0x22, CHR 0x5C, CHR 0x08, CHR 0x0C, CHR 0x0A, CHR 0x0D, CHR 0x09}" "\<not> (of_char c :: nat) < 32"
    by blast
  then show ?thesis
  proof cases
    case sp
    then show ?thesis
      by (auto simp: escape_char_def unescape_def)
  next
    case lo
    then show ?thesis
      by (simp add: escape_char_def hex4_low)
  next
    case pl
    then show ?thesis
      by (simp add: escape_char_def)
  qed
qed

lemma parse_chars_quote:
  "parse_chars (concat (map escape_char s) @ CHR 0x22 # rest) = Some (s, rest)"
  by (induction s) (simp_all add: parse_chars_escape cons_result_def)

subsection \<open>Number literals\<close>

lemma of_char_digit_char: "d < 10 \<Longrightarrow> (of_char (digit_char d) :: nat) = 48 + d"
  by (simp add: digit_char_def)

lemma is_digit_digit_char: "d < 10 \<Longrightarrow> is_digit (digit_char d)"
  by (simp add: is_digit_def of_char_digit_char)

lemma digits_nonempty: "digits n \<noteq> []"
  by (subst digits.simps) simp

lemma digits_all_digit: "list_all is_digit (digits n)"
proof (induction n rule: digits.induct)
  case (1 n)
  show ?case
  proof (cases "n < 10")
    case True
    then show ?thesis by (subst digits.simps) (simp add: is_digit_digit_char)
  next
    case False
    with 1 show ?thesis by (subst digits.simps) (simp add: is_digit_digit_char)
  qed
qed

lemma digits_val_snoc: "digits_val (ds @ [c]) = 10 * digits_val ds + (of_char c - 48)"
  by (simp add: digits_val_def)

lemma digits_val_digits: "digits_val (digits n) = n"
proof (induction n rule: digits.induct)
  case (1 n)
  show ?case
  proof (cases "n < 10")
    case True
    then show ?thesis
      by (subst digits.simps) (simp add: digits_val_def of_char_digit_char)
  next
    case False
    with 1 have "digits_val (digits (n div 10)) = n div 10" by simp
    with False show ?thesis
      by (subst digits.simps) (simp add: digits_val_snoc of_char_digit_char)
  qed
qed

lemma take1_append: "xs \<noteq> [] \<Longrightarrow> take (Suc 0) (xs @ ys) = take (Suc 0) xs"
  by (cases xs) simp_all

lemma digits_leading_zero: "take 1 (digits n) = ''0'' \<Longrightarrow> n = 0"
proof (induction n rule: digits.induct)
  case (1 n)
  show ?case
  proof (cases "n < 10")
    case True
    with 1(2) have "digit_char n = CHR ''0''"
      by (subst (asm) digits.simps) simp
    then have "(of_char (digit_char n) :: nat) = 48" by simp
    with True show ?thesis by (simp add: of_char_digit_char)
  next
    case False
    from False have "digits n = digits (n div 10) @ [digit_char (n mod 10)]"
      by (subst digits.simps) simp
    then have "take (Suc 0) (digits n) = take (Suc 0) (digits (n div 10))"
      by (simp only: take1_append [OF digits_nonempty])
    with 1(2) have "take 1 (digits (n div 10)) = ''0''"
      by simp
    with 1(1) False have "n div 10 = 0" by simp
    with False show ?thesis by simp
  qed
qed

lemma digits_zero: "digits 0 = ''0''"
  by code_simp

lemma digits_no_leading_zero: "\<not> (1 < length (digits n) \<and> take 1 (digits n) = ''0'')"
  using digits_leading_zero [of n] digits_zero by auto

lemma takeWhile_digits: "number_end rest \<Longrightarrow> takeWhile is_digit (digits n @ rest) = digits n"
  using digits_all_digit [of n]
  by (cases rest) (simp_all add: list_all_iff takeWhile_tail)

lemma dropWhile_digits: "number_end rest \<Longrightarrow> dropWhile is_digit (digits n @ rest) = rest"
  using digits_all_digit [of n]
  by (cases rest) (simp_all add: list_all_iff)

lemma parse_digits_digits:
  assumes "number_end rest"
  shows "parse_digits (digits n @ rest) = Some (n, rest)"
proof -
  have r: "\<not> (take 1 rest = ''.'' \<or> take 1 rest = ''e'' \<or> take 1 rest = ''E'')"
    using assms by (cases rest) auto
  show ?thesis
    unfolding parse_digits_def Let_def takeWhile_digits [OF assms] dropWhile_digits [OF assms]
    using r digits_no_leading_zero [of n]
    by (simp add: digits_nonempty digits_val_digits)
qed

lemma digits_Cons: "\<exists>c cs. digits n = c # cs \<and> is_digit c"
  using digits_all_digit [of n] digits_nonempty [of n]
  by (cases "digits n") simp_all

lemma is_digit_not_minus: "is_digit c \<Longrightarrow> c \<noteq> CHR ''-''"
  by (auto simp: is_digit_def)

lemma parse_number_show_int:
  assumes "number_end rest"
  shows "parse_number (show_int i @ rest) = Some (JNum i, rest)"
proof (cases "i < 0")
  case True
  then show ?thesis
    by (simp add: parse_number_def show_int_def parse_digits_digits [OF assms])
next
  case False
  obtain c cs where d: "digits (nat i) = c # cs" "is_digit c"
    using digits_Cons by blast
  have "parse_digits (c # cs @ rest) = Some (nat i, rest)"
    using parse_digits_digits [OF assms, of "nat i"] d by simp
  with False d show ?thesis
    by (simp add: parse_number_def show_int_def is_digit_not_minus)
qed

lemma show_int_Cons: "\<exists>c cs. show_int i = c # cs \<and> (c = CHR ''-'' \<or> is_digit c)"
  using digits_Cons [of "nat i"] by (auto simp: show_int_def)

lemma is_digit_not_opener:
  "is_digit c \<Longrightarrow>
     c \<noteq> CHR ''n'' \<and> c \<noteq> CHR ''t'' \<and> c \<noteq> CHR ''f'' \<and> c \<noteq> CHR 0x22 \<and> c \<noteq> CHR ''['' \<and> c \<noteq> CHR ''{''"
  by (auto simp: is_digit_def)

lemma parse_value_number:
  assumes "number_end rest"
  shows "parse_value (Suc n) (show_int i @ rest) = Some (JNum i, rest)"
proof -
  obtain c cs where s: "show_int i = c # cs" "c = CHR ''-'' \<or> is_digit c"
    using show_int_Cons by blast
  then have "c \<noteq> CHR ''n'' \<and> c \<noteq> CHR ''t'' \<and> c \<noteq> CHR ''f'' \<and> c \<noteq> CHR 0x22 \<and> c \<noteq> CHR ''['' \<and> c \<noteq> CHR ''{''"
    using is_digit_not_opener by auto
  with s have "parse_value (Suc n) (show_int i @ rest) = parse_number (show_int i @ rest)"
    by simp
  then show ?thesis by (simp add: parse_number_show_int [OF assms])
qed

subsection \<open>Values\<close>

lemma is_digit_starts: "is_digit c \<Longrightarrow> \<not> is_ws c \<and> c \<noteq> CHR '']'' \<and> c \<noteq> CHR ''}''"
  by (auto simp: is_digit_def is_ws_def)

lemma starts_value_show_int: "starts_value (show_int i)"
  using show_int_Cons [of i] is_digit_starts
  by (auto simp: starts_value_def is_ws_def)

lemma starts_value_stringify: "JSON_stringify v = Some s \<Longrightarrow> starts_value s"
  by (cases v) (auto simp: starts_value_def is_ws_def quote_def starts_value_show_int [unfolded starts_value_def])

lemma stringify_Some: "serializable v \<Longrightarrow> \<exists>s. JSON_stringify v = Some s"
  by (cases v) simp_all

lemma skip_ws_starts: "starts_value s \<Longrightarrow> skip_ws (s @ r) = s @ r"
  by (cases s) (simp_all add: starts_value_def skip_ws_def)

lemma skip_ws_id: "starts_value s \<Longrightarrow> skip_ws s = s"
  by (cases s) (simp_all add: starts_value_def skip_ws_def)

lemma skip_ws_punct [simp]:
  "skip_ws (CHR '','' # r) = CHR '','' # r"
  "skip_ws (CHR '']'' # r) = CHR '']'' # r"
  "skip_ws (CHR ''}'' # r) = CHR ''}'' # r"
  "skip_ws (CHR '':'' # r) = CHR '':'' # r"
  "skip_ws (CHR 0x22 # r) = CHR 0x22 # r"
  "skip_ws [] = []"
  by (simp_all add: skip_ws_def is_ws_def)

lemma number_end_punct [simp]:
  "number_end (CHR '','' # r)" "number_end (CHR '']'' # r)" "number_end (CHR ''}'' # r)"
  by (simp_all add: is_digit_def)

lemma join_commas_Cons:
  "join_commas (x # xs) @ r = x @ (if xs = [] then r else CHR '','' # join_commas xs @ r)"
  by (cases xs) simp_all

lemma stringify_elements_nonempty: "vs \<noteq> [] \<Longrightarrow> stringify_elements vs \<noteq> []"
  by (cases vs) simp_all

lemma stringify_members_nonempty:
  "serializable_members kvs \<Longrightarrow> kvs \<noteq> [] \<Longrightarrow> stringify_members kvs \<noteq> []"
proof -
  assume a: "serializable_members kvs" "kvs \<noteq> []"
  then obtain k v kvs' where kvs: "kvs = (k, v) # kvs'" "serializable v" by (cases kvs) auto
  then obtain t where "JSON_stringify v = Some t" using stringify_Some by blast
  with kvs show ?thesis by simp
qed

lemma starts_value_elements:
  assumes "serializable_elements vs" "vs \<noteq> []"
  shows "starts_value (join_commas (stringify_elements vs) @ r)"
proof -
  from assms obtain v vs' where vs: "vs = v # vs'" "serializable v" by (cases vs) auto
  then obtain t where t: "JSON_stringify v = Some t" using stringify_Some by blast
  then have "starts_value t" by (rule starts_value_stringify)
  then obtain c cs where "t = c # cs" "\<not> is_ws c \<and> c \<noteq> CHR '']'' \<and> c \<noteq> CHR ''}''"
    by (cases t) (auto simp: starts_value_def)
  with vs t show ?thesis
    by (simp add: join_commas_Cons starts_value_def)
qed

lemma starts_quote_members:
  assumes "serializable_members kvs" "kvs \<noteq> []"
  shows "\<exists>cs. join_commas (stringify_members kvs) @ r = CHR 0x22 # cs"
proof -
  from assms obtain k v kvs' where kvs: "kvs = (k, v) # kvs'" "serializable v" by (cases kvs) auto
  then obtain t where t: "JSON_stringify v = Some t" using stringify_Some by blast
  with kvs show ?thesis
    by (simp add: join_commas_Cons quote_def)
qed

lemma put_fresh: "k \<notin> fst ` set acc \<Longrightarrow> put k v acc = acc @ [(k, v)]"
  by (induction acc) auto

lemma foldl_put_distinct:
  "distinct (map fst (acc @ kvs)) \<Longrightarrow> foldl (\<lambda>acc (k, v). put k v acc) acc kvs = acc @ kvs"
proof (induction kvs arbitrary: acc)
  case Nil
  then show ?case by simp
next
  case (Cons kv kvs)
  obtain k v where kv: "kv = (k, v)" by (cases kv)
  from Cons.prems kv have f: "k \<notin> fst ` set acc" by auto
  from Cons.prems kv have "distinct (map fst ((acc @ [(k, v)]) @ kvs))" by simp
  from Cons.IH [OF this] kv f show ?case by (simp add: put_fresh)
qed

lemma make_object_distinct: "distinct (map fst kvs) \<Longrightarrow> make_object kvs = JObj kvs"
  using foldl_put_distinct [of "[]" kvs] by (simp add: make_object_def)

text \<open>
  Reading back what \<open>JSON.stringify\<close> wrote, followed by any input on which a
  number could end, returns the value and that input, whenever the bound on nested calls
  is at least the weight of the value.
\<close>

lemma roundtrip_rec:
  "serializable v \<Longrightarrow> weight v \<le> n \<Longrightarrow> number_end rest \<Longrightarrow>
     parse_value n (the (JSON_stringify v) @ rest) = Some (v, rest)"
  "serializable_elements vs \<Longrightarrow> vs \<noteq> [] \<Longrightarrow> weight_elements vs \<le> n \<Longrightarrow>
     parse_elements n (join_commas (stringify_elements vs) @ CHR '']'' # rest) = Some (vs, rest)"
  "serializable_members kvs \<Longrightarrow> kvs \<noteq> [] \<Longrightarrow> weight_members kvs \<le> n \<Longrightarrow>
     parse_members n (join_commas (stringify_members kvs) @ CHR ''}'' # rest) = Some (kvs, rest)"
proof (induction v and vs and kvs arbitrary: n rest and n rest and n rest
       rule: weight_weight_elements_weight_members.induct)
  case (6 vs)
  then obtain m where n: "n = Suc m" "weight_elements vs \<le> m" by (cases n) auto
  show ?case
  proof (cases "vs = []")
    case True
    with n show ?thesis by simp
  next
    case False
    from 6(2) have se: "serializable_elements vs" by simp
    from starts_value_elements [OF se False, of "CHR '']'' # rest"]
    obtain d ds where d: "join_commas (stringify_elements vs) @ CHR '']'' # rest = d # ds"
      "\<not> is_ws d" "d \<noteq> CHR '']''"
      by (auto simp: starts_value_def split: list.splits)
    then have sk: "skip_ws (join_commas (stringify_elements vs) @ CHR '']'' # rest) = d # ds"
      by (simp add: skip_ws_def)
    from "6.IH" [OF se False n(2), of rest] d(1)
    have "parse_elements m (d # ds) = Some (vs, rest)" by simp
    with n sk d show ?thesis by simp
  qed
next
  case (7 kvs)
  then obtain m where n: "n = Suc m" "weight_members kvs \<le> m" by (cases n) auto
  from 7(2) have sm: "serializable_members kvs" and di: "distinct (map fst kvs)" by simp_all
  show ?case
  proof (cases "kvs = []")
    case True
    with n show ?thesis by simp
  next
    case False
    from starts_quote_members [OF sm False, of "CHR ''}'' # rest"]
    obtain ds where d: "join_commas (stringify_members kvs) @ CHR ''}'' # rest = CHR 0x22 # ds"
      by blast
    then have sk: "skip_ws (join_commas (stringify_members kvs) @ CHR ''}'' # rest) = CHR 0x22 # ds"
      by simp
    from "7.IH" [OF sm False n(2), of rest] d
    have "parse_members m (CHR 0x22 # ds) = Some (kvs, rest)" by simp
    with n sk show ?thesis by (simp add: make_object_distinct [OF di])
  qed
next
  case (1 n rest)
  then show ?case by simp
next
  case (2 n rest)
  then obtain m where "n = Suc m" by (cases n) auto
  then show ?case by simp
next
  case (3 b n rest)
  then obtain m where "n = Suc m" by (cases n) auto
  then show ?case by simp
next
  case (4 i n rest)
  then obtain m where n: "n = Suc m" by (cases n) auto
  have "the (JSON_stringify (JNum i)) = show_int i" by simp
  with parse_value_number [OF 4(3), of m i] n show ?case by (simp only:)
next
  case (5 s n rest)
  then obtain m where "n = Suc m" by (cases n) auto
  then show ?case by (simp add: quote_def parse_chars_quote)
next
  case 8
  then show ?case by simp
next
  case (9 v vs)
  then obtain m where n: "n = Suc m" "weight v \<le> m" "weight_elements vs \<le> m" by (cases n) auto
  from 9(3) have sv: "serializable v" and se: "serializable_elements vs" by simp_all
  from sv obtain t where t: "JSON_stringify v = Some t" using stringify_Some by blast
  show ?case
  proof (cases "vs = []")
    case True
    from "9.IH"(1) [OF sv n(2), of "CHR '']'' # rest"] t
    have "parse_value m (t @ CHR '']'' # rest) = Some (v, CHR '']'' # rest)" by (simp add: is_digit_def)
    with True n t show ?thesis by simp
  next
    case False
    let ?tail = "join_commas (stringify_elements vs) @ CHR '']'' # rest"
    from "9.IH"(1) [OF sv n(2), of "CHR '','' # ?tail"] t
    have a: "parse_value m (t @ CHR '','' # ?tail) = Some (v, CHR '','' # ?tail)" by (simp add: is_digit_def)
    have b: "skip_ws ?tail = ?tail"
      by (rule skip_ws_id [OF starts_value_elements [OF se False]])
    from "9.IH"(2) [OF se False n(3), of rest]
    have c: "parse_elements m ?tail = Some (vs, rest)" .
    from False have ne: "stringify_elements vs \<noteq> []" by (rule stringify_elements_nonempty)
    have "join_commas (stringify_elements (v # vs)) @ CHR '']'' # rest = t @ CHR '','' # ?tail"
      using t ne by (simp add: join_commas_Cons)
    with n a b c show ?thesis by (simp add: cons_result_def)
  qed
next
  case 10
  then show ?case by simp
next
  case (11 k v kvs)
  then obtain m where n: "n = Suc m" "weight v \<le> m" "weight_members kvs \<le> m" by (cases n) auto
  from 11(3) have sv: "serializable v" and sm: "serializable_members kvs" by simp_all
  from sv obtain t where t: "JSON_stringify v = Some t" using stringify_Some by blast
  have q: "\<And>r. parse_chars (concat (map escape_char k) @ CHR 0x22 # r) = Some (k, r)"
    by (rule parse_chars_quote)
  show ?case
  proof (cases "kvs = []")
    case True
    from "11.IH"(1) [OF sv n(2), of "CHR ''}'' # rest"] t
    have a: "parse_value m (t @ CHR ''}'' # rest) = Some (v, CHR ''}'' # rest)" by (simp add: is_digit_def)
    have b: "skip_ws (t @ CHR ''}'' # rest) = t @ CHR ''}'' # rest"
      using starts_value_stringify [OF t] by (simp add: skip_ws_starts)
    from True n t a b q show ?thesis by (simp add: quote_def)
  next
    case False
    let ?tail = "join_commas (stringify_members kvs) @ CHR ''}'' # rest"
    from "11.IH"(1) [OF sv n(2), of "CHR '','' # ?tail"] t
    have a: "parse_value m (t @ CHR '','' # ?tail) = Some (v, CHR '','' # ?tail)" by (simp add: is_digit_def)
    have b: "skip_ws (t @ CHR '','' # ?tail) = t @ CHR '','' # ?tail"
      using starts_value_stringify [OF t] by (simp add: skip_ws_starts)
    obtain ds where d: "?tail = CHR 0x22 # ds"
      using starts_quote_members [OF sm False] by blast
    then have b2: "skip_ws ?tail = ?tail" by simp
    from "11.IH"(2) [OF sm False n(3), of rest]
    have c: "parse_members m ?tail = Some (kvs, rest)" .
    from False sm have ne: "stringify_members kvs \<noteq> []" by (simp add: stringify_members_nonempty)
    have "join_commas (stringify_members ((k, v) # kvs)) @ CHR ''}'' # rest
            = quote k @ CHR '':'' # t @ CHR '','' # ?tail"
      using t ne by (simp add: join_commas_Cons)
    with n a b b2 c q show ?thesis by (simp add: quote_def cons_result_def)
  qed
qed

lemma length_join_commas_Cons:
  "length (join_commas (x # xs)) = length x + (if xs = [] then 0 else Suc (length (join_commas xs)))"
  by (cases xs) simp_all

text \<open>
  The weight of a value is at most the length of its text, so the bound \<open>JSON_parse\<close>
  computes from its input is enough.
\<close>

lemma weight_bound:
  "serializable v \<Longrightarrow> weight v \<le> length (the (JSON_stringify v))"
  "serializable_elements vs \<Longrightarrow> weight_elements vs \<le> Suc (length (join_commas (stringify_elements vs)))"
  "serializable_members kvs \<Longrightarrow> weight_members kvs \<le> Suc (length (join_commas (stringify_members kvs)))"
proof (induction v and vs and kvs rule: weight_weight_elements_weight_members.induct)
  case (6 vs)
  then show ?case by simp
next
  case (7 kvs)
  then show ?case by simp
next
  case 1
  then show ?case by simp
next
  case 2
  then show ?case by simp
next
  case (3 b)
  then show ?case by simp
next
  case (4 i)
  obtain c cs where "show_int i = c # cs" using show_int_Cons by blast
  then show ?case by simp
next
  case (5 s)
  then show ?case by (simp add: quote_def)
next
  case 8
  then show ?case by simp
next
  case (9 v vs)
  then have sv: "serializable v" and se: "serializable_elements vs" by simp_all
  from sv obtain t where t: "JSON_stringify v = Some t" using stringify_Some by blast
  from "9.IH"(1) [OF sv] t have a: "weight v \<le> length t" by simp
  from "9.IH"(2) [OF se] have b: "weight_elements vs \<le> Suc (length (join_commas (stringify_elements vs)))" .
  show ?case
  proof (cases "vs = []")
    case True
    with a t show ?thesis by simp
  next
    case False
    then have "stringify_elements vs \<noteq> []" by (rule stringify_elements_nonempty)
    with a b t show ?thesis by (simp add: length_join_commas_Cons)
  qed
next
  case 10
  then show ?case by simp
next
  case (11 k v kvs)
  then have sv: "serializable v" and sm: "serializable_members kvs" by simp_all
  from sv obtain t where t: "JSON_stringify v = Some t" using stringify_Some by blast
  from "11.IH"(1) [OF sv] t have a: "weight v \<le> length t" by simp
  from "11.IH"(2) [OF sm] have b: "weight_members kvs \<le> Suc (length (join_commas (stringify_members kvs)))" .
  show ?case
  proof (cases "kvs = []")
    case True
    with a t show ?thesis by simp
  next
    case False
    with sm have "stringify_members kvs \<noteq> []" by (simp add: stringify_members_nonempty)
    with a b t show ?thesis by (simp add: length_join_commas_Cons)
  qed
qed

lemma JSON_parse_stringify:
  assumes "serializable v" and "JSON_stringify v = Some s"
  shows "JSON_parse s = Inr v"
proof -
  from weight_bound(1) [OF assms(1)] assms(2) have w: "weight v \<le> Suc (2 * length s)" by simp
  have ne: "number_end []" by simp
  from roundtrip_rec(1) [OF assms(1) w ne] assms(2)
  have p: "parse_value (Suc (2 * length s)) s = Some (v, [])" by simp
  have "skip_ws s = s" by (rule skip_ws_id [OF starts_value_stringify [OF assms(2)]])
  with p show ?thesis by (simp add: JSON_parse_def)
qed

lemma JSON_parse_null: "JSON_parse ''null'' = Inr JNull"
  by code_simp

subsection \<open>The bound on nested calls\<close>

text \<open>
  Reading a value consumes input, and a reading that succeeds under some bound succeeds
  under every bound of at least twice the number of characters it consumes.
\<close>

lemma length_skip_ws: "length (skip_ws s) \<le> length s"
  by (simp add: skip_ws_def length_dropWhile_le)

lemma skip_ws_Cons_length: "skip_ws s = c # cs \<Longrightarrow> length cs < length s"
  using length_skip_ws [of s] by simp

lemma cons_result_Some:
  "cons_result x res = Some (ys, r) \<Longrightarrow> \<exists>xs. res = Some (xs, r) \<and> ys = x # xs"
  by (auto simp: cons_result_def split: option.splits)

lemma parse_chars_length: "parse_chars s = Some (k, r) \<Longrightarrow> length r < length s"
proof (induction s arbitrary: k rule: parse_chars.induct)
  case 1
  then show ?case by simp
next
  case (2 c cs)
  then show ?case
    by (fastforce split: if_splits list.splits option.splits dest!: cons_result_Some)
qed

lemma strip_prefix_length: "strip_prefix p s = Some r \<Longrightarrow> length r \<le> length s"
  by (induction p s rule: strip_prefix.induct) (auto split: if_splits)

lemma parse_digits_length: "parse_digits s = Some (n, r) \<Longrightarrow> length r < length s"
proof -
  assume a: "parse_digits s = Some (n, r)"
  then have "takeWhile is_digit s \<noteq> []" and "r = dropWhile is_digit s"
    by (auto simp: parse_digits_def Let_def split: if_splits)
  moreover have "length (takeWhile is_digit s) + length (dropWhile is_digit s) = length s"
    by (metis length_append takeWhile_dropWhile_id)
  ultimately show ?thesis by (cases "takeWhile is_digit s") auto
qed

lemma parse_number_length: "parse_number s = Some (v, r) \<Longrightarrow> length r < length s"
  by (auto simp: parse_number_def split: list.splits if_splits dest!: parse_digits_length)

lemma parse_length:
  "parse_value m s = Some (v, r) \<Longrightarrow> length r < length s"
  "parse_elements m s = Some (vs, r) \<Longrightarrow> length r < length s"
  "parse_members m s = Some (kvs, r) \<Longrightarrow> length r < length s"
proof (induction m s and m s and m s arbitrary: v r and vs r and kvs r
       rule: parse_value_parse_elements_parse_members.induct)
  case (1 s)
  then show ?case by simp
next
  case (2 n s)
  then show ?case
    by (fastforce split: list.splits if_splits
        dest!: strip_prefix_length parse_chars_length parse_number_length skip_ws_Cons_length)
next
  case (3 s)
  then show ?case by simp
next
  case (4 n s)
  from "4.prems" obtain v r1 where v: "parse_value n s = Some (v, r1)"
    by (auto split: option.splits)
  from "4.IH"(1) [OF v] have l1: "length r1 < length s" .
  from "4.prems" v obtain c cs where c: "skip_ws r1 = c # cs"
    by (auto split: list.splits)
  then have l2: "length cs < length r1" by (rule skip_ws_Cons_length)
  show ?case
  proof (cases "c = CHR '']''")
    case True
    with "4.prems" v c have "r = cs" by simp
    with l1 l2 show ?thesis by simp
  next
    case False
    with "4.prems" v c have cm: "c = CHR '',''"
      and "cons_result v (parse_elements n (skip_ws cs)) = Some (vs, r)"
      by (auto split: if_splits)
    then obtain vs' where e: "parse_elements n (skip_ws cs) = Some (vs', r)"
      by (auto dest: cons_result_Some)
    from "4.IH"(2) [OF v refl c False cm e] have "length r < length (skip_ws cs)" .
    with length_skip_ws [of cs] l1 l2 show ?thesis by simp
  qed
next
  case (5 s)
  then show ?case by simp
next
  case (6 n s)
  from "6.prems" obtain q cs where s: "s = q # cs" and q: "q = CHR 0x22"
    by (auto split: list.splits if_splits)
  from "6.prems" s q obtain k r0 where k: "parse_chars cs = Some (k, r0)"
    by (auto split: option.splits)
  then have l0: "length r0 < length cs" by (rule parse_chars_length)
  from "6.prems" s q k obtain c1 r1 where c1: "skip_ws r0 = c1 # r1" and c1c: "c1 = CHR '':''"
    by (auto split: list.splits if_splits)
  from c1 have l1: "length r1 < length r0" by (rule skip_ws_Cons_length)
  from "6.prems" s q k c1 c1c obtain v r2 where v: "parse_value n (skip_ws r1) = Some (v, r2)"
    by (auto split: option.splits)
  from "6.IH"(1) [OF s _ k refl c1 _ ] q c1c v have l2: "length r2 < length (skip_ws r1)"
    by simp
  from "6.prems" s q k c1 c1c v obtain c2 r3 where c2: "skip_ws r2 = c2 # r3"
    by (auto split: list.splits)
  then have l3: "length r3 < length r2" by (rule skip_ws_Cons_length)
  show ?case
  proof (cases "c2 = CHR ''}''")
    case True
    with "6.prems" s q k c1 c1c v c2 have "r = r3" by simp
    with s l0 l1 l2 l3 length_skip_ws [of r1] show ?thesis by simp
  next
    case False
    with "6.prems" s q k c1 c1c v c2 have cm: "c2 = CHR '',''"
      and "cons_result (k, v) (parse_members n (skip_ws r3)) = Some (kvs, r)"
      by (auto split: if_splits)
    then obtain kvs' where e: "parse_members n (skip_ws r3) = Some (kvs', r)"
      by (auto dest: cons_result_Some)
    have "length r < length (skip_ws r3)"
      using "6.IH"(2) [OF s _ k refl c1 _ v refl c2 False cm e] q c1c by simp
    with s l0 l1 l2 l3 length_skip_ws [of r1] length_skip_ws [of r3] show ?thesis by simp
  qed
qed


lemma parse_value_no_nesting:
  "c \<noteq> CHR ''['' \<Longrightarrow> c \<noteq> CHR ''{'' \<Longrightarrow> parse_value (Suc m) (c # cs) = parse_value (Suc n) (c # cs)"
  by simp

lemma parse_fuel:
  "parse_value m s = Some (v, r) \<Longrightarrow> 2 * (length s - length r) \<le> Suc n \<Longrightarrow>
     parse_value n s = Some (v, r)"
  "parse_elements m s = Some (vs, r) \<Longrightarrow> 2 * (length s - length r) \<le> n + 2 \<Longrightarrow>
     parse_elements n s = Some (vs, r)"
  "parse_members m s = Some (kvs, r) \<Longrightarrow> 2 * (length s - length r) \<le> n + 2 \<Longrightarrow>
     parse_members n s = Some (kvs, r)"
proof (induction m s and m s and m s arbitrary: v r n and vs r n and kvs r n
       rule: parse_value_parse_elements_parse_members.induct)
  case (1 s)
  then show ?case by simp
next
  case (2 m s)
  from parse_length(1) [OF "2.prems"(1)] have lr: "length r < length s" .
  with "2.prems"(2) obtain n' where n: "n = Suc n'" by (cases n) auto
  from "2.prems"(1) obtain c cs where s: "s = c # cs" by (cases s) auto
  show ?case
  proof (cases "c = CHR ''[''")
    case True
    with "2.prems"(1) s obtain d ds where d: "skip_ws cs = d # ds"
      by (auto split: list.splits)
    then have ld: "length ds < length cs" by (rule skip_ws_Cons_length)
    show ?thesis
    proof (cases "d = CHR '']''")
      case True
      with "2.prems"(1) s \<open>c = CHR ''[''\<close> d n show ?thesis by simp
    next
      case False
      with "2.prems"(1) s True d obtain xs where
        e: "parse_elements m (d # ds) = Some (xs, r)" and v: "v = JArr xs"
        by auto
      from parse_length(2) [OF e] have "length r < length (d # ds)" .
      with "2.prems"(2) n s ld have "2 * (length (d # ds) - length r) \<le> n' + 2" by simp
      from "2.IH"(1) [OF s _ _ _ _ True d False e this] True
      have "parse_elements n' (d # ds) = Some (xs, r)" by simp
      with s True d False v n show ?thesis by simp
    qed
  next
    case nb: False
    show ?thesis
    proof (cases "c = CHR ''{''")
      case True
      with "2.prems"(1) s obtain d ds where d: "skip_ws cs = d # ds"
        by (auto split: list.splits)
      then have ld: "length ds < length cs" by (rule skip_ws_Cons_length)
      show ?thesis
      proof (cases "d = CHR ''}''")
        case True
        with "2.prems"(1) s \<open>c = CHR ''{''\<close> d n show ?thesis by simp
      next
        case False
        with "2.prems"(1) s True d obtain xs where
          e: "parse_members m (d # ds) = Some (xs, r)" and v: "v = make_object xs"
          by auto
        from parse_length(3) [OF e] have "length r < length (d # ds)" .
        with "2.prems"(2) n s ld have "2 * (length (d # ds) - length r) \<le> n' + 2" by simp
        from "2.IH"(2) [OF s _ _ _ _ _ True d False e this] True
        have "parse_members n' (d # ds) = Some (xs, r)" by simp
        with s True d False v n show ?thesis by simp
      qed
    next
      case False
      from parse_value_no_nesting [OF nb False, of n' cs m] "2.prems"(1) s n
      show ?thesis by simp
    qed
  qed
next
  case (3 s)
  then show ?case by simp
next
  case (4 m s)
  from "4.prems"(1) obtain v r1 where v: "parse_value m s = Some (v, r1)"
    by (auto split: option.splits)
  from parse_length(1) [OF v] have l1: "length r1 < length s" .
  from "4.prems"(1) v obtain c cs where c: "skip_ws r1 = c # cs"
    by (auto split: list.splits)
  then have l2: "length cs < length r1" by (rule skip_ws_Cons_length)
  from parse_length(2) [OF "4.prems"(1)] have lr: "length r < length s" .
  show ?case
  proof (cases "c = CHR '']''")
    case True
    with "4.prems"(1) v c have r: "r = cs" and vs: "vs = [v]" by simp_all
    from "4.prems"(2) r l1 l2 obtain n' where n: "n = Suc n'" by (cases n) auto
    from "4.prems"(2) r l1 l2 n have "2 * (length s - length r1) \<le> Suc n'" by simp
    from "4.IH"(1) [OF v this] have "parse_value n' s = Some (v, r1)" .
    with n c True r vs show ?thesis by simp
  next
    case False
    with "4.prems"(1) v c have cm: "c = CHR '',''"
      and "cons_result v (parse_elements m (skip_ws cs)) = Some (vs, r)"
      by (auto split: if_splits)
    then obtain vs' where e: "parse_elements m (skip_ws cs) = Some (vs', r)" and vs: "vs = v # vs'"
      by (auto dest: cons_result_Some)
    from parse_length(2) [OF e] have l3: "length r < length (skip_ws cs)" .
    from "4.prems"(2) l1 l2 l3 length_skip_ws [of cs] obtain n' where n: "n = Suc n'"
      by (cases n) auto
    from "4.prems"(2) l1 l2 l3 length_skip_ws [of cs] n
    have b1: "2 * (length s - length r1) \<le> Suc n'"
      and b2: "2 * (length (skip_ws cs) - length r) \<le> n' + 2" by simp_all
    from "4.IH"(1) [OF v b1] have p1: "parse_value n' s = Some (v, r1)" .
    from "4.IH"(2) [OF v refl c False cm e b2]
    have p2: "parse_elements n' (skip_ws cs) = Some (vs', r)" .
    from n p1 c False cm p2 vs show ?thesis by (simp add: cons_result_def)
  qed
next
  case (5 s)
  then show ?case by simp
next
  case (6 m s)
  from "6.prems"(1) obtain q cs where s: "s = q # cs" and q: "q = CHR 0x22"
    by (auto split: list.splits if_splits)
  from "6.prems"(1) s q obtain k r0 where k: "parse_chars cs = Some (k, r0)"
    by (auto split: option.splits)
  then have l0: "length r0 < length cs" by (rule parse_chars_length)
  from "6.prems"(1) s q k obtain c1 r1 where c1: "skip_ws r0 = c1 # r1" and c1c: "c1 = CHR '':''"
    by (auto split: list.splits if_splits)
  from c1 have l1: "length r1 < length r0" by (rule skip_ws_Cons_length)
  from "6.prems"(1) s q k c1 c1c obtain v r2 where v: "parse_value m (skip_ws r1) = Some (v, r2)"
    by (auto split: option.splits)
  from parse_length(1) [OF v] have l2: "length r2 < length (skip_ws r1)" .
  from "6.prems"(1) s q k c1 c1c v obtain c2 r3 where c2: "skip_ws r2 = c2 # r3"
    by (auto split: list.splits)
  then have l3: "length r3 < length r2" by (rule skip_ws_Cons_length)
  note ls = l0 l1 l2 l3 length_skip_ws [of r1] length_skip_ws [of r3]
  show ?case
  proof (cases "c2 = CHR ''}''")
    case True
    with "6.prems"(1) s q k c1 c1c v c2 have r: "r = r3" and kvs: "kvs = [(k, v)]" by simp_all
    from "6.prems"(2) r s ls obtain n' where n: "n = Suc n'" by (cases n) auto
    from "6.prems"(2) r s ls n have b: "2 * (length (skip_ws r1) - length r2) \<le> Suc n'" by simp
    have "parse_value n' (skip_ws r1) = Some (v, r2)"
      using "6.IH"(1) [OF s _ k refl c1 _ v b] q c1c by simp
    with n s q k c1 c1c c2 True r kvs show ?thesis by simp
  next
    case False
    with "6.prems"(1) s q k c1 c1c v c2 have cm: "c2 = CHR '',''"
      and "cons_result (k, v) (parse_members m (skip_ws r3)) = Some (kvs, r)"
      by (auto split: if_splits)
    then obtain kvs' where e: "parse_members m (skip_ws r3) = Some (kvs', r)"
      and kvs: "kvs = (k, v) # kvs'"
      by (auto dest: cons_result_Some)
    from parse_length(3) [OF e] have l4: "length r < length (skip_ws r3)" .
    from "6.prems"(2) s ls l4 obtain n' where n: "n = Suc n'" by (cases n) auto
    from "6.prems"(2) s ls l4 n
    have b1: "2 * (length (skip_ws r1) - length r2) \<le> Suc n'"
      and b2: "2 * (length (skip_ws r3) - length r) \<le> n' + 2" by simp_all
    have p1: "parse_value n' (skip_ws r1) = Some (v, r2)"
      using "6.IH"(1) [OF s _ k refl c1 _ v b1] q c1c by simp
    have p2: "parse_members n' (skip_ws r3) = Some (kvs', r)"
      using "6.IH"(2) [OF s _ k refl c1 _ v refl c2 False cm e b2] q c1c by simp
    from n s q k c1 c1c p1 c2 False cm p2 kvs show ?thesis by (simp add: cons_result_def)
  qed
qed

text \<open>
  So the bound that \<open>JSON_parse\<close> computes from its input never cuts a reading short:
  whatever a larger bound reads, this bound reads too.
\<close>

lemma JSON_parse_bound_enough:
  assumes "parse_value n (skip_ws s) = Some (v, r)"
  shows "parse_value (Suc (2 * length s)) (skip_ws s) = Some (v, r)"
proof -
  have "2 * (length (skip_ws s) - length r) \<le> Suc (Suc (2 * length s))"
    using length_skip_ws [of s] by simp
  from parse_fuel(1) [OF assms this] show ?thesis .
qed

section \<open>Properties of the session store\<close>

subsection \<open>Pairing of token and user\<close>

lemma store_inv_paired: "store_inv st \<Longrightarrow> paired st"
  by (simp add: store_inv_def paired_def)

lemma logged_out_inv: "logged_out st \<Longrightarrow> store_inv st"
  by (simp add: logged_out_def store_inv_def)

lemma store_inv_setAuth:
  "allowed_op (SetAuth t u) \<Longrightarrow> store_inv (setAuth t u st)"
  by (cases t) (simp_all add: store_inv_def setAuth_def Let_def getItem_def)

lemma store_inv_logout: "store_inv (logout st)"
  by (simp add: store_inv_def logout_def Let_def getItem_def)

lemma store_inv_updateUser:
  "store_inv st \<Longrightarrow> present u \<Longrightarrow> present (token (fst st)) \<Longrightarrow> store_inv (updateUser u st)"
  by (simp add: store_inv_def updateUser_def Let_def getItem_def)

lemma store_inv_step: "store_inv st \<Longrightarrow> guarded_op x st \<Longrightarrow> store_inv (apply_op x st)"
  by (cases x) (simp_all add: store_inv_setAuth store_inv_logout store_inv_updateUser)

lemma store_inv_observations:
  "store_inv st \<Longrightarrow> guarded_ops xs st \<Longrightarrow> list_all store_inv (observations xs st)"
  by (induction xs arbitrary: st) (simp_all add: store_inv_step)

text \<open>
  C3, as amended. Starting from the empty session, along every finite sequence of
  \<open>setAuth\<close> (with a non-empty token string and a user), \<open>logout\<close> and \<open>updateUser\<close>
  (with a user) calls in which \<open>updateUser\<close> is only called while a token is held, at
  every observation point token and user are both present or both absent, in memory and
  in the two storage entries.
\<close>

theorem pairing_invariant_guarded:
  assumes "logged_out st" and "guarded_ops xs st"
  shows "paired st \<and> list_all paired (observations xs st)"
proof -
  from assms have "list_all store_inv (observations xs st)"
    by (simp add: store_inv_observations logged_out_inv)
  then have "list_all paired (observations xs st)"
    by (simp add: list_all_iff store_inv_paired)
  with assms(1) show ?thesis
    by (simp add: store_inv_paired logged_out_inv)
qed

theorem pairing_invariant_guarded_witness:
  "logged_out store_empty \<and>
   guarded_ops [SetAuth (JStr ''abc123'') user_priya, UpdateUser user_priya, Logout] store_empty \<and>
   list_all paired
     (observations [SetAuth (JStr ''abc123'') user_priya, UpdateUser user_priya, Logout] store_empty)"
proof -
  have a: "logged_out store_empty"
    by (simp add: logged_out_def store_empty_def getItem_def)
  have b: "guarded_ops [SetAuth (JStr ''abc123'') user_priya, UpdateUser user_priya, Logout] store_empty"
    by (simp add: user_priya_def setAuth_def)
  from pairing_invariant_guarded [OF a b] a b show ?thesis by blast
qed

text \<open>
  Without the restriction the invariant fails: \<open>updateUser\<close> on the empty session
  stores a user and no token.
\<close>

theorem pairing_invariant_counterexample:
  "logged_out store_empty \<and> allowed_op (UpdateUser user_priya) \<and>
   \<not> paired (apply_op (UpdateUser user_priya) store_empty)"
  by (simp add: logged_out_def store_empty_def user_priya_def paired_def updateUser_def getItem_def)

subsection \<open>Logout\<close>

text \<open>
  C8. From every state of the store, in particular every reachable one, two calls of
  \<open>logout\<close> in a row leave the same memory and storage as one call; \<open>logout\<close> raises
  no error (it has no failing branch), and on a logged-out store it changes nothing.
\<close>

theorem logout_idempotent:
  "logout (logout st) = logout st \<and> (logged_out st \<longrightarrow> logout st = st)"
proof
  show "logout (logout st) = logout st"
    by (simp add: logout_def)
next
  show "logged_out st \<longrightarrow> logout st = st"
  proof
    assume lo: "logged_out st"
    obtain s b where st: "st = (s, b)" by (cases st)
    from lo st have m: "localStorage b ''dd_token'' = None" "localStorage b ''dd_user'' = None"
      and s: "token s = JNull" "user s = JNull"
      by (auto simp: logged_out_def getItem_def split: option.splits)
    have "(localStorage b)(''dd_token'' := None, ''dd_user'' := None) = localStorage b"
      using m by (auto simp: fun_eq_iff)
    with s st show "logout st = st"
      by (simp add: logout_def)
  qed
qed

theorem logout_idempotent_witness:
  "logged_out (\<lparr>token = JNull, user = JNull\<rparr>,
               \<lparr>localStorage = Map.empty, location_href = ''/login''\<rparr>) \<and>
   logout (\<lparr>token = JNull, user = JNull\<rparr>,
           \<lparr>localStorage = Map.empty, location_href = ''/login''\<rparr>)
     = (\<lparr>token = JNull, user = JNull\<rparr>,
        \<lparr>localStorage = Map.empty, location_href = ''/login''\<rparr>)"
proof -
  have h: "logged_out (\<lparr>token = JNull, user = JNull\<rparr>,
               \<lparr>localStorage = Map.empty, location_href = ''/login''\<rparr>)"
    by (simp add: logged_out_def getItem_def)
  with logout_idempotent [of "(\<lparr>token = JNull, user = JNull\<rparr>,
               \<lparr>localStorage = Map.empty, location_href = ''/login''\<rparr>)"]
  show ?thesis by blast
qed

subsection \<open>Initial state read from storage\<close>

text \<open>
  C4, as amended. When the user entry is absent (or the empty string), reading the
  initial state does not throw: the user is \<open>null\<close> and the token is the stored token
  string, or \<open>null\<close> when the token entry is absent or empty. So the session is logged
  out when both entries are absent, and holds a token without a user when only the token
  entry is present.
\<close>

theorem stored_without_user_entry:
  assumes "localStorage b ''dd_user'' = None \<or> localStorage b ''dd_user'' = Some []"
  shows "stored b =
           Inr \<lparr>token = (case localStorage b ''dd_token'' of
                           None \<Rightarrow> JNull
                         | Some t \<Rightarrow> if t = [] then JNull else JStr t),
                user = JNull\<rparr>"
  using assms
  by (auto simp: stored_def getItem_def js_or_def JSON_parse_null split: option.splits)

theorem stored_without_user_entry_witness:
  "localStorage \<lparr>localStorage = Map.empty, location_href = ''/''\<rparr> ''dd_user'' = None \<and>
   stored \<lparr>localStorage = Map.empty, location_href = ''/''\<rparr>
     = Inr \<lparr>token = JNull, user = JNull\<rparr>"
proof -
  have h: "localStorage \<lparr>localStorage = Map.empty, location_href = ''/''\<rparr> ''dd_user'' = None
           \<or> localStorage \<lparr>localStorage = Map.empty, location_href = ''/''\<rparr> ''dd_user'' = Some []"
    by simp
  from stored_without_user_entry [OF h] show ?thesis by simp
qed

text \<open>
  With exactly one of the two entries present the session is not logged out: a stored
  token alone is read back as the token. And a user entry that is not JSON text makes
  the module throw while it loads.
\<close>

theorem stored_counterexample:
  "stored \<lparr>localStorage = [''dd_token'' \<mapsto> ''abc123''], location_href = ''/''\<rparr>
     = Inr \<lparr>token = JStr ''abc123'', user = JNull\<rparr> \<and>
   stored \<lparr>localStorage = [''dd_user'' \<mapsto> ''{''], location_href = ''/''\<rparr> = Inl SyntaxError"
proof -
  have "JSON_parse ''{'' = Inl SyntaxError" by code_simp
  then show ?thesis by (simp add: stored_def getItem_def js_or_def JSON_parse_null)
qed

subsection \<open>Reload\<close>

text \<open>
  C5. For every non-empty token string and every serializable user, \<open>setAuth\<close>
  followed by reading the initial state again from the storage it wrote yields the same
  token and user, which is also the state \<open>setAuth\<close> left in memory.
\<close>

theorem durable_round_trip:
  assumes "ts \<noteq> []" and "serializable u"
  shows "fst (setAuth (JStr ts) u st) = \<lparr>token = JStr ts, user = u\<rparr> \<and>
         stored (snd (setAuth (JStr ts) u st)) = Inr \<lparr>token = JStr ts, user = u\<rparr>"
proof
  show "fst (setAuth (JStr ts) u st) = \<lparr>token = JStr ts, user = u\<rparr>"
    by (simp add: setAuth_def)
next
  from assms(2) obtain s where s: "JSON_stringify u = Some s" using stringify_Some by blast
  then have "starts_value s" by (rule starts_value_stringify)
  then have ne: "s \<noteq> []" by (auto simp: starts_value_def)
  have p: "JSON_parse s = Inr u" by (rule JSON_parse_stringify [OF assms(2) s])
  have t: "getItem (snd (setAuth (JStr ts) u st)) ''dd_token'' = JStr ts"
    by (simp add: setAuth_def getItem_def)
  have us: "getItem (snd (setAuth (JStr ts) u st)) ''dd_user'' = JStr s"
    using s by (simp add: setAuth_def getItem_def stringify_item_def)
  show "stored (snd (setAuth (JStr ts) u st)) = Inr \<lparr>token = JStr ts, user = u\<rparr>"
    unfolding stored_def t us using assms(1) ne p by (simp add: js_or_def)
qed

theorem durable_round_trip_witness:
  "''abc123'' \<noteq> [] \<and> serializable user_priya \<and>
   stored (snd (setAuth (JStr ''abc123'') user_priya store_empty))
     = Inr \<lparr>token = JStr ''abc123'', user = user_priya\<rparr>"
proof -
  have a: "''abc123'' \<noteq> []" by simp
  have b: "serializable user_priya"
    by (simp add: user_priya_def safe_integer_def index_like_def is_digit_def)
  from durable_round_trip [OF a b, of store_empty] b show ?thesis by simp
qed

section \<open>Properties of the route guards\<close>

text \<open>
  C1. Each guard's decision is a function of whether the token is truthy and of the
  class of \<open>user?.role\<close> alone, and in every cell the specification fills in (the 4 x 3
  table, and a present token with a missing or unknown role for \<open>RequireAuth\<close>,
  \<open>RequirePatient\<close> and \<open>PublicOnly\<close>) the guard returns the element of the table:
  children, or a replacing redirect to \<open>/login\<close>, \<open>/dashboard\<close> or \<open>/investigator\<close>.
\<close>

theorem guard_matrix:
  "(spec_guard_table g (hasToken s) (role_of s) = Some d \<longrightarrow> run_guard g s = d) \<and>
   (hasToken s = hasToken s' \<and> role_of s = role_of s' \<longrightarrow> run_guard g s = run_guard g s')"
proof
  show "spec_guard_table g (hasToken s) (role_of s) = Some d \<longrightarrow> run_guard g s = d"
    by (cases g; cases "hasToken s"; cases "role_of s")
       (auto simp: hasToken_def role_of_def RequireAuth_def RequirePatient_def
          RequireInvestigator_def PublicOnly_def split: if_splits)
next
  show "hasToken s = hasToken s' \<and> role_of s = role_of s' \<longrightarrow> run_guard g s = run_guard g s'"
    by (cases g)
       (auto simp: hasToken_def role_of_def RequireAuth_def RequirePatient_def
          RequireInvestigator_def PublicOnly_def split: if_splits)
qed

theorem guard_matrix_witness:
  "spec_guard_table G_RequirePatient
     (hasToken \<lparr>token = JStr ''abc123'', user = JObj [(''role'', JStr ''investigator'')]\<rparr>)
     (role_of \<lparr>token = JStr ''abc123'', user = JObj [(''role'', JStr ''investigator'')]\<rparr>)
     = Some (Navigate ''/investigator'' True) \<and>
   run_guard G_RequirePatient
        \<lparr>token = JStr ''abc123'', user = JObj [(''role'', JStr ''investigator'')]\<rparr>
     = Navigate ''/investigator'' True \<and>
   hasToken \<lparr>token = JStr ''abc123'', user = JObj [(''role'', JStr ''investigator'')]\<rparr>
     = hasToken \<lparr>token = JStr ''xyz'', user = JObj [(''id'', JNum 3), (''role'', JStr ''investigator'')]\<rparr> \<and>
   role_of \<lparr>token = JStr ''abc123'', user = JObj [(''role'', JStr ''investigator'')]\<rparr>
     = role_of \<lparr>token = JStr ''xyz'', user = JObj [(''id'', JNum 3), (''role'', JStr ''investigator'')]\<rparr> \<and>
   run_guard G_RequirePatient
        \<lparr>token = JStr ''abc123'', user = JObj [(''role'', JStr ''investigator'')]\<rparr>
     = run_guard G_RequirePatient
        \<lparr>token = JStr ''xyz'', user = JObj [(''id'', JNum 3), (''role'', JStr ''investigator'')]\<rparr>"
proof -
  have h: "spec_guard_table G_RequirePatient
     (hasToken \<lparr>token = JStr ''abc123'', user = JObj [(''role'', JStr ''investigator'')]\<rparr>)
     (role_of \<lparr>token = JStr ''abc123'', user = JObj [(''role'', JStr ''investigator'')]\<rparr>)
     = Some (Navigate ''/investigator'' True)"
    by (simp add: hasToken_def role_of_def)
  have e: "hasToken \<lparr>token = JStr ''abc123'', user = JObj [(''role'', JStr ''investigator'')]\<rparr>
     = hasToken \<lparr>token = JStr ''xyz'', user = JObj [(''id'', JNum 3), (''role'', JStr ''investigator'')]\<rparr> \<and>
   role_of \<lparr>token = JStr ''abc123'', user = JObj [(''role'', JStr ''investigator'')]\<rparr>
     = role_of \<lparr>token = JStr ''xyz'', user = JObj [(''id'', JNum 3), (''role'', JStr ''investigator'')]\<rparr>"
    by (simp add: hasToken_def role_of_def)
  from h e
    guard_matrix [of G_RequirePatient
      "\<lparr>token = JStr ''abc123'', user = JObj [(''role'', JStr ''investigator'')]\<rparr>"
      "Navigate ''/investigator'' True"
      "\<lparr>token = JStr ''xyz'', user = JObj [(''id'', JNum 3), (''role'', JStr ''investigator'')]\<rparr>"]
  show ?thesis by blast
qed

text \<open>
  The cell the specification leaves open: with a token and a missing or unknown role,
  \<open>RequireInvestigator\<close> redirects to the patient home.
\<close>

lemma guard_open_cell:
  "hasToken s \<Longrightarrow> role_of s = absent \<Longrightarrow> RequireInvestigator s = Navigate ''/dashboard'' True"
  by (auto simp: hasToken_def role_of_def RequireInvestigator_def split: if_splits)

section \<open>Properties of the authorized request client\<close>

text \<open>
  C6. A request reaches the interceptor as its call site built it; every call site of
  the client passes at most \<open>params\<close> or \<open>responseType\<close>, never a header. If the token
  entry holds a non-empty string \<open>t\<close> when the request is dispatched, the outgoing
  request carries \<open>Authorization: Bearer t\<close> and is otherwise the caller's request. If no
  token is stored, the request goes out unchanged, so the \<open>Authorization\<close> header, which
  the caller did not set, is absent. (An empty stored string counts as no token.)
\<close>

theorem header_injection:
  "(localStorage b ''dd_token'' = Some t \<and> t \<noteq> [] \<longrightarrow>
      request_interceptor b c = c\<lparr>req_headers := (req_headers c)(''Authorization'' \<mapsto> ''Bearer '' @ t)\<rparr> \<and>
      req_headers (request_interceptor b c) ''Authorization'' = Some (''Bearer '' @ t)) \<and>
   (localStorage b ''dd_token'' = None \<longrightarrow> request_interceptor b c = c) \<and>
   (localStorage b ''dd_token'' = Some [] \<longrightarrow> request_interceptor b c = c) \<and>
   (localStorage b ''dd_token'' = None \<and> req_headers c ''Authorization'' = None \<longrightarrow>
      req_headers (request_interceptor b c) ''Authorization'' = None)"
  by (simp add: request_interceptor_def getItem_def)

theorem header_injection_witness:
  "localStorage \<lparr>localStorage = [''dd_token'' \<mapsto> ''abc123''], location_href = ''/dashboard''\<rparr>
      ''dd_token'' = Some ''abc123'' \<and>
   req_headers (request_interceptor
      \<lparr>localStorage = [''dd_token'' \<mapsto> ''abc123''], location_href = ''/dashboard''\<rparr>
      \<lparr>req_method = GET, req_url = ''/api/v1/patients/profile'',
         req_headers = Map.empty, req_data = NoBody\<rparr>) ''Authorization''
     = Some ''Bearer abc123'' \<and>
   localStorage \<lparr>localStorage = Map.empty, location_href = ''/login''\<rparr> ''dd_token'' = None \<and>
   req_headers \<lparr>req_method = GET, req_url = ''/api/v1/patients/profile'',
         req_headers = Map.empty, req_data = NoBody\<rparr> ''Authorization'' = None \<and>
   req_headers (request_interceptor \<lparr>localStorage = Map.empty, location_href = ''/login''\<rparr>
      \<lparr>req_method = GET, req_url = ''/api/v1/patients/profile'',
         req_headers = Map.empty, req_data = NoBody\<rparr>) ''Authorization'' = None \<and>
   request_interceptor \<lparr>localStorage = Map.empty, location_href = ''/login''\<rparr>
      \<lparr>req_method = GET, req_url = ''/api/v1/patients/profile'',
         req_headers = Map.empty, req_data = NoBody\<rparr>
     = \<lparr>req_method = GET, req_url = ''/api/v1/patients/profile'',
          req_headers = Map.empty, req_data = NoBody\<rparr> \<and>
   request_interceptor \<lparr>localStorage = [''dd_token'' \<mapsto> []], location_href = ''/login''\<rparr>
      \<lparr>req_method = GET, req_url = ''/api/v1/patients/profile'',
         req_headers = Map.empty, req_data = NoBody\<rparr>
     = \<lparr>req_method = GET, req_url = ''/api/v1/patients/profile'',
          req_headers = Map.empty, req_data = NoBody\<rparr>"
proof -
  have a: "localStorage \<lparr>localStorage = [''dd_token'' \<mapsto> ''abc123''], location_href = ''/dashboard''\<rparr>
      ''dd_token'' = Some ''abc123'' \<and> ''abc123'' \<noteq> []"
    by simp
  have b: "localStorage \<lparr>localStorage = Map.empty, location_href = ''/login''\<rparr> ''dd_token'' = None"
    by simp
  have c: "localStorage \<lparr>localStorage = [''dd_token'' \<mapsto> []], location_href = ''/login''\<rparr>
      ''dd_token'' = Some []"
    by simp
  have d: "req_headers \<lparr>req_method = GET, req_url = ''/api/v1/patients/profile'',
         req_headers = Map.empty, req_data = NoBody\<rparr> ''Authorization'' = None"
    by simp
  from a b c d
    header_injection [of "\<lparr>localStorage = [''dd_token'' \<mapsto> ''abc123''], location_href = ''/dashboard''\<rparr>"
       "''abc123''"
       "\<lparr>req_method = GET, req_url = ''/api/v1/patients/profile'',
          req_headers = Map.empty, req_data = NoBody\<rparr>"]
    header_injection [of "\<lparr>localStorage = Map.empty, location_href = ''/login''\<rparr>" "[]"
       "\<lparr>req_method = GET, req_url = ''/api/v1/patients/profile'',
          req_headers = Map.empty, req_data = NoBody\<rparr>"]
    header_injection [of "\<lparr>localStorage = [''dd_token'' \<mapsto> []], location_href = ''/login''\<rparr>" "[]"
       "\<lparr>req_method = GET, req_url = ''/api/v1/patients/profile'',
          req_headers = Map.empty, req_data = NoBody\<rparr>"]
  show ?thesis by simp
qed

text \<open>
  C2. The error handler always rejects with the error it received. When the status is
  exactly 401 it removes the token entry and the user entry and then assigns \<open>/login\<close>
  to the location, so both entries are already absent in the state in which the redirect
  is issued. For any other error (another status, or no response at all, as for a network
  failure or a timeout) it executes nothing and the browser state is unchanged.
\<close>

theorem forced_logout_on_401:
  "snd (response_rejected err b) = Rejected err \<and>
   (error_status err = Some 401 \<longrightarrow>
      rejected_effects err = [RemoveItem ''dd_token'', RemoveItem ''dd_user'', SetHref ''/login''] \<and>
      getItem (fst (response_rejected err b)) ''dd_token'' = JNull \<and>
      getItem (fst (response_rejected err b)) ''dd_user'' = JNull \<and>
      location_href (fst (response_rejected err b)) = ''/login'' \<and>
      (\<exists>b'. at_redirect (rejected_effects err) b = Some b' \<and>
            getItem b' ''dd_token'' = JNull \<and> getItem b' ''dd_user'' = JNull)) \<and>
   (error_status err \<noteq> Some 401 \<longrightarrow>
      rejected_effects err = [] \<and> fst (response_rejected err b) = b)"
  by (simp add: response_rejected_def rejected_effects_def getItem_def)

theorem forced_logout_on_401_witness:
  "error_status \<lparr>err_message = ''Request failed with status code 401'',
                 err_response = Some \<lparr>status = 401, data = JNull\<rparr>\<rparr> = Some 401 \<and>
   getItem (fst (response_rejected
        \<lparr>err_message = ''Request failed with status code 401'',
           err_response = Some \<lparr>status = 401, data = JNull\<rparr>\<rparr>
        \<lparr>localStorage = [''dd_token'' \<mapsto> ''abc123'', ''dd_user'' \<mapsto> ''null''],
           location_href = ''/dashboard''\<rparr>)) ''dd_token'' = JNull \<and>
   error_status \<lparr>err_message = ''Network Error'', err_response = None\<rparr> \<noteq> Some 401 \<and>
   fst (response_rejected \<lparr>err_message = ''Network Error'', err_response = None\<rparr>
        \<lparr>localStorage = [''dd_token'' \<mapsto> ''abc123'', ''dd_user'' \<mapsto> ''null''],
           location_href = ''/dashboard''\<rparr>)
     = \<lparr>localStorage = [''dd_token'' \<mapsto> ''abc123'', ''dd_user'' \<mapsto> ''null''],
           location_href = ''/dashboard''\<rparr>"
proof -
  have a: "error_status \<lparr>err_message = ''Request failed with status code 401'',
                 err_response = Some \<lparr>status = 401, data = JNull\<rparr>\<rparr> = Some 401"
    by (simp add: error_status_def)
  have b: "error_status \<lparr>err_message = ''Network Error'', err_response = None\<rparr> \<noteq> Some 401"
    by (simp add: error_status_def)
  from a b
    forced_logout_on_401 [of "\<lparr>err_message = ''Request failed with status code 401'',
                 err_response = Some \<lparr>status = 401, data = JNull\<rparr>\<rparr>"
       "\<lparr>localStorage = [''dd_token'' \<mapsto> ''abc123'', ''dd_user'' \<mapsto> ''null''],
           location_href = ''/dashboard''\<rparr>"]
    forced_logout_on_401 [of "\<lparr>err_message = ''Network Error'', err_response = None\<rparr>"
       "\<lparr>localStorage = [''dd_token'' \<mapsto> ''abc123'', ''dd_user'' \<mapsto> ''null''],
           location_href = ''/dashboard''\<rparr>"]
  show ?thesis by blast
qed

section \<open>Properties of the auth adapter and the registration page\<close>

text \<open>
  C7. For every email \<open>e\<close> and password \<open>p\<close>, \<open>login(e, p)\<close> issues a POST to
  \<open>/api/v1/auth/login\<close> under the base address, with the content type
  \<open>application/x-www-form-urlencoded\<close> and a form body (not a JSON body) of exactly the
  fields \<open>username = e\<close> and \<open>password = p\<close>, in this order.
\<close>

theorem login_wire_format:
  "authApi_login env [JStr e, JStr p] =
     \<lparr>req_method = POST,
      req_url = API_BASE env @ ''/api/v1/auth/login'',
      req_headers = [''Content-Type'' \<mapsto> ''application/x-www-form-urlencoded''],
      req_data = FormBody [(''username'', e), (''password'', p)]\<rparr>"
  by (simp add: authApi_login_def arg_def)

lemma events_emit: "events (emit e pg) = events pg @ [e]"
  by (simp add: emit_def)

lemma submit_try_events_reg:
  "\<exists>rest. events (fst (submit_try env net f pg))
      = events pg @ Sent (authApi_register env [form_object f]) # rest"
  by (auto simp: submit_try_def Let_def events_emit split: sum.splits)

lemma submit_try_events_me:
  assumes "net (authApi_register env [form_object f]) = Inr created"
    and "net (authApi_login env [JStr (form_email f), JStr (form_password f)]) = Inr res"
  shows "\<exists>rest. events (fst (submit_try env net f pg))
      = events pg @ [Sent (authApi_register env [form_object f]),
                     Sent (authApi_login env [JStr (form_email f), JStr (form_password f)]),
                     Sent (authApi_me env [])] @ rest"
  using assms
  by (auto simp: submit_try_def Let_def events_emit split: sum.splits)

lemma handleSubmit_events:
  assumes "valid_form f"
  shows "\<exists>e. events (handleSubmit env net f pg)
     = events (fst (submit_try env net f (emit (Loading True) pg))) @ e"
  using assms
  by (auto simp: handleSubmit_def valid_form_def events_emit split: prod.splits option.splits)

text \<open>
  C9. When a valid form is submitted and both the registration and the login request
  succeed, the page sends, in this order and before anything is written to the store, the
  registration request, the login request and the request of \<open>me()\<close> called without an
  argument; that request is a GET of \<open>/api/v1/auth/me\<close> whose \<open>Authorization\<close> header
  is the string \<open>Bearer undefined\<close>, whatever access token the login returned.
\<close>

theorem register_me_without_token:
  assumes "valid_form f"
    and "net (authApi_register env [form_object f]) = Inr created"
    and "net (authApi_login env [JStr (form_email f), JStr (form_password f)]) = Inr res"
  shows "(\<exists>rest. events (handleSubmit env net f pg)
           = events pg @ [Loading True,
                Sent (authApi_register env [form_object f]),
                Sent (authApi_login env [JStr (form_email f), JStr (form_password f)]),
                Sent (authApi_me env [])] @ rest) \<and>
         authApi_me env [] =
           \<lparr>req_method = GET, req_url = API_BASE env @ ''/api/v1/auth/me'',
            req_headers = [''Authorization'' \<mapsto> ''Bearer undefined''], req_data = NoBody\<rparr>"
proof
  from handleSubmit_events [OF assms(1)] obtain e where
    e: "events (handleSubmit env net f pg)
     = events (fst (submit_try env net f (emit (Loading True) pg))) @ e" by blast
  from submit_try_events_me [OF assms(2,3)] obtain r where
    "events (fst (submit_try env net f (emit (Loading True) pg)))
      = events (emit (Loading True) pg) @ [Sent (authApi_register env [form_object f]),
                     Sent (authApi_login env [JStr (form_email f), JStr (form_password f)]),
                     Sent (authApi_me env [])] @ r" by blast
  with e show "\<exists>rest. events (handleSubmit env net f pg)
           = events pg @ [Loading True,
                Sent (authApi_register env [form_object f]),
                Sent (authApi_login env [JStr (form_email f), JStr (form_password f)]),
                Sent (authApi_me env [])] @ rest"
    by (simp add: events_emit)
next
  show "authApi_me env [] =
           \<lparr>req_method = GET, req_url = API_BASE env @ ''/api/v1/auth/me'',
            req_headers = [''Authorization'' \<mapsto> ''Bearer undefined''], req_data = NoBody\<rparr>"
    by (simp add: authApi_me_def arg_def)
qed

theorem register_me_without_token_witness:
  "valid_form form_ok \<and>
   (\<exists>rest. events (handleSubmit JUndefined net_ok form_ok page_fresh)
      = events page_fresh @ [Loading True,
          Sent (authApi_register JUndefined [form_object form_ok]),
          Sent (authApi_login JUndefined [JStr (form_email form_ok), JStr (form_password form_ok)]),
          Sent (authApi_me JUndefined [])] @ rest)"
proof -
  have v: "valid_form form_ok"
    by (simp add: valid_form_def form_ok_def)
  have r: "net_ok (authApi_register JUndefined [form_object form_ok])
             = Inr \<lparr>status = 200, data = JObj [(''access_token'', JStr ''abc123''), (''role'', JStr ''investigator'')]\<rparr>"
    by (simp add: net_ok_def)
  have l: "net_ok (authApi_login JUndefined [JStr (form_email form_ok), JStr (form_password form_ok)])
             = Inr \<lparr>status = 200, data = JObj [(''access_token'', JStr ''abc123''), (''role'', JStr ''investigator'')]\<rparr>"
    by (simp add: net_ok_def)
  from register_me_without_token [OF v r l, of page_fresh] v show ?thesis by blast
qed

text \<open>
  C10, as amended. For every submission that passes the page's validation, the first
  request sent is \<open>authApi.register\<close> called with the form object as its only argument:
  a POST of \<open>/api/v1/auth/register\<close> whose JSON body holds the whole form object under
  \<open>email\<close>, \<open>undefined\<close> under \<open>password\<close> and \<open>full_name\<close>, and \<open>patient\<close> under
  \<open>role\<close>, whatever role the form holds.
\<close>

theorem register_sends_form_as_email:
  assumes "valid_form f"
  shows "(\<exists>rest. events (handleSubmit env net f pg)
           = events pg @ [Loading True, Sent (authApi_register env [form_object f])] @ rest) \<and>
         authApi_register env [form_object f] =
           \<lparr>req_method = POST, req_url = API_BASE env @ ''/api/v1/auth/register'',
            req_headers = Map.empty,
            req_data = JsonBody (JObj [(''email'', form_object f), (''password'', JUndefined),
                                       (''full_name'', JUndefined), (''role'', JStr ''patient'')])\<rparr>"
proof
  from handleSubmit_events [OF assms] obtain e where
    e: "events (handleSubmit env net f pg)
     = events (fst (submit_try env net f (emit (Loading True) pg))) @ e" by blast
  from submit_try_events_reg obtain r where
    "events (fst (submit_try env net f (emit (Loading True) pg)))
      = events (emit (Loading True) pg) @ Sent (authApi_register env [form_object f]) # r"
    by blast
  with e show "\<exists>rest. events (handleSubmit env net f pg)
           = events pg @ [Loading True, Sent (authApi_register env [form_object f])] @ rest"
    by (simp add: events_emit)
next
  show "authApi_register env [form_object f] =
           \<lparr>req_method = POST, req_url = API_BASE env @ ''/api/v1/auth/register'',
            req_headers = Map.empty,
            req_data = JsonBody (JObj [(''email'', form_object f), (''password'', JUndefined),
                                       (''full_name'', JUndefined), (''role'', JStr ''patient'')])\<rparr>"
    by (simp add: authApi_register_def arg_def)
qed

theorem register_sends_form_as_email_witness:
  "valid_form form_ok \<and>
   (\<exists>rest. events (handleSubmit JUndefined net_ok form_ok page_fresh)
      = events page_fresh @ [Loading True,
          Sent (authApi_register JUndefined [form_object form_ok])] @ rest)"
proof -
  have v: "valid_form form_ok"
    by (simp add: valid_form_def form_ok_def)
  from register_sends_form_as_email [OF v, of JUndefined net_ok page_fresh] v
  show ?thesis by blast
qed

text \<open>
  A submission that fails the validation sends nothing: the page only shows an error.
  And the role selected in a valid form does travel to the backend, inside the form
  object that the request carries under \<open>email\<close>.
\<close>

theorem register_every_submission_counterexample:
  "events (handleSubmit JUndefined net_ok form_blank page_fresh)
     = [Toasted (ToastError (JStr ''All fields are required''))] \<and>
   req_data (authApi_register JUndefined [form_object form_ok])
     = JsonBody (JObj [(''email'',
                        JObj [(''full_name'', JStr ''Priya Sharma''), (''email'', JStr ''a@b.com''),
                              (''password'', JStr ''password1''), (''role'', JStr ''investigator'')]),
                       (''password'', JUndefined), (''full_name'', JUndefined),
                       (''role'', JStr ''patient'')])"
  by (simp add: handleSubmit_def form_blank_def page_fresh_def emit_def
        authApi_register_def arg_def form_object_def form_ok_def)

end
